theory Spec2Isabelle
  imports Main
begin

section \<open>Text, characters and errors\<close>

text \<open>
  The program \<^verbatim>\<open>convert_icons.py\<close> reads a file as text and rewrites it with two
  regular-expression substitutions. A Python string is modelled as a \<^typ>\<open>string\<close>;
  a character is a code point below 256. The character classes of Python's \<^verbatim>\<open>re\<close>
  and \<^verbatim>\<open>str\<close> are written out for that range. Reading the file and writing it back
  are not modelled: the development is about the function from the text read to the text
  written. A Python exception is the value \<open>Inl e\<close>.
\<close>

datatype error = ValueError | IndexError

definition ord :: "char \<Rightarrow> nat" where
  "ord c = of_char c"

text \<open>\<^verbatim>\<open>str.isspace\<close>, also the class \<^verbatim>\<open>\s\<close> of a \<^verbatim>\<open>str\<close> pattern.\<close>

definition isspace :: "char \<Rightarrow> bool" where
  "isspace c = ((9 \<le> ord c \<and> ord c \<le> 13) \<or> (28 \<le> ord c \<and> ord c \<le> 32)
                 \<or> ord c = 133 \<or> ord c = 160)"

text \<open>The white space that \<^verbatim>\<open>int(s, base)\<close> skips at both ends of \<^verbatim>\<open>s\<close>.\<close>

definition int_space :: "char \<Rightarrow> bool" where
  "int_space c = ((9 \<le> ord c \<and> ord c \<le> 13) \<or> ord c = 32 \<or> ord c = 133 \<or> ord c = 160)"

text \<open>The class \<^verbatim>\<open>\w\<close> of a \<^verbatim>\<open>str\<close> pattern: alphanumeric or underscore.\<close>

definition isalnum :: "char \<Rightarrow> bool" where
  "isalnum c = ((48 \<le> ord c \<and> ord c \<le> 57) \<or> (65 \<le> ord c \<and> ord c \<le> 90)
                 \<or> (97 \<le> ord c \<and> ord c \<le> 122)
                 \<or> ord c = 170 \<or> ord c = 178 \<or> ord c = 179 \<or> ord c = 181
                 \<or> ord c = 185 \<or> ord c = 186 \<or> (188 \<le> ord c \<and> ord c \<le> 190)
                 \<or> (192 \<le> ord c \<and> ord c \<le> 214) \<or> (216 \<le> ord c \<and> ord c \<le> 246)
                 \<or> (248 \<le> ord c \<and> ord c \<le> 255))"

definition isword :: "char \<Rightarrow> bool" where
  "isword c = (isalnum c \<or> c = CHR ''_'')"

text \<open>The class \<^verbatim>\<open>[0-9a-fA-F]\<close>.\<close>

definition ishex :: "char \<Rightarrow> bool" where
  "ishex c = ((48 \<le> ord c \<and> ord c \<le> 57) \<or> (97 \<le> ord c \<and> ord c \<le> 102)
               \<or> (65 \<le> ord c \<and> ord c \<le> 70))"

text \<open>\<^verbatim>\<open>s.strip()\<close> and \<^verbatim>\<open>s.strip(chars)\<close>: drop the characters of a class at both ends.\<close>

definition strip_by :: "(char \<Rightarrow> bool) \<Rightarrow> string \<Rightarrow> string" where
  "strip_by P s = rev (dropWhile P (rev (dropWhile P s)))"

definition strip :: "string \<Rightarrow> string" where
  "strip s = strip_by isspace s"

definition strip_chars :: "string \<Rightarrow> string \<Rightarrow> string" where
  "strip_chars cs s = strip_by (\<lambda>c. c \<in> set cs) s"

section \<open>Integers and text: \<^verbatim>\<open>int(s, base)\<close> and the format specifications\<close>

definition digit_of :: "char \<Rightarrow> nat option" where
  "digit_of c =
     (if 48 \<le> ord c \<and> ord c \<le> 57 then Some (ord c - 48)
      else if 97 \<le> ord c \<and> ord c \<le> 122 then Some (ord c - 87)
      else if 65 \<le> ord c \<and> ord c \<le> 90 then Some (ord c - 55)
      else None)"

text \<open>
  The digits of an integer literal: a single underscore may stand between two digits
  (and right after a base prefix); there is at least one digit and the last character is
  a digit. \<open>us\<close> says that an underscore may come next, \<open>fin\<close> that the literal may
  end here.
\<close>

fun int_digits :: "nat \<Rightarrow> bool \<Rightarrow> bool \<Rightarrow> nat \<Rightarrow> string \<Rightarrow> nat option" where
  "int_digits b us fin acc [] = (if fin then Some acc else None)"
| "int_digits b us fin acc (c # cs) =
     (if c = CHR ''_'' then (if us then int_digits b False False acc cs else None)
      else (case digit_of c of
              None \<Rightarrow> None
            | Some d \<Rightarrow> if d < b then int_digits b True True (acc * b + d) cs else None))"

definition int_sign :: "string \<Rightarrow> bool \<times> string" where
  "int_sign s = (case s of
       [] \<Rightarrow> (False, s)
     | c # cs \<Rightarrow> if c = CHR ''-'' then (True, cs)
                else if c = CHR ''+'' then (False, cs) else (False, s))"

definition int_prefix :: "nat \<Rightarrow> string \<Rightarrow> bool \<times> string" where
  "int_prefix b s = (case s of
       c0 # c1 # cs \<Rightarrow>
         if c0 = CHR ''0'' \<and> ((b = 16 \<and> (c1 = CHR ''x'' \<or> c1 = CHR ''X''))
                              \<or> (b = 2 \<and> (c1 = CHR ''b'' \<or> c1 = CHR ''B'')))
         then (True, cs) else (False, s)
     | _ \<Rightarrow> (False, s))"

text \<open>\<^verbatim>\<open>int(s, b)\<close> for the bases the program uses, 2 and 16; a malformed literal raises.\<close>

definition py_int :: "string \<Rightarrow> nat \<Rightarrow> error + int" where
  "py_int s b =
     (let (neg, u) = int_sign (strip_by int_space s);
          (pfx, ds) = int_prefix b u
      in case int_digits b pfx False 0 ds of
           None \<Rightarrow> Inl ValueError
         | Some n \<Rightarrow> Inr (if neg then - int n else int n))"

definition digit_char :: "nat \<Rightarrow> char" where
  "digit_char d = (if d < 10 then char_of (48 + d) else char_of (87 + d))"

function to_base :: "nat \<Rightarrow> nat \<Rightarrow> string" where
  "to_base b n = (if b < 2 \<or> n < b then [digit_char n]
                  else to_base b (n div b) @ [digit_char (n mod b)])"
  by pat_completeness auto
termination
  by (relation "measure (\<lambda>(b, n). n)") auto

declare to_base.simps [simp del]

text \<open>
  The format specifications \<^verbatim>\<open>{:08b}\<close> and \<^verbatim>\<open>{:02x}\<close>: the digits of the magnitude in
  base \<open>b\<close>, after the sign, padded with zeros to \<open>w\<close> characters, sign included.
\<close>

definition fmt_int :: "nat \<Rightarrow> nat \<Rightarrow> int \<Rightarrow> string" where
  "fmt_int b w n =
     (let sign = (if n < 0 then ''-'' else '''');
          ds = to_base b (nat \<bar>n\<bar>)
      in sign @ replicate (w - length sign - length ds) (CHR ''0'') @ ds)"

section \<open>The bit-order transform\<close>

text \<open>\<^verbatim>\<open>return int('{:08b}'.format(n)[::-1], 2)\<close>\<close>

definition reverse_bits :: "int \<Rightarrow> error + int" where
  "reverse_bits n = py_int (rev (fmt_int 2 8 n)) 2"

section \<open>Regular expressions\<close>

text \<open>
  The three patterns of the program are sequences of literal text and of greedy
  repetitions (\<^verbatim>\<open>*\<close>, \<^verbatim>\<open>+\<close>) of a one-character class, some of them inside a capturing
  group. \<^verbatim>\<open>re\<close> matches such a sequence by backtracking: a repetition first takes as
  many characters as it can and gives them back one at a time while the rest of the
  pattern fails. The flags \<^verbatim>\<open>re.MULTILINE\<close> and \<^verbatim>\<open>re.DOTALL\<close> of the first pattern change
  \<^verbatim>\<open>^\<close>, \<^verbatim>\<open>$\<close> and \<^verbatim>\<open>.\<close> only, which the pattern does not use.
\<close>

datatype cclass = Space | Word | Hex | Except char

fun in_class :: "cclass \<Rightarrow> char \<Rightarrow> bool" where
  "in_class Space c = isspace c"
| "in_class Word c = isword c"
| "in_class Hex c = ishex c"
| "in_class (Except x) c = (c \<noteq> x)"

datatype rx = Lit string | Star cclass | Plus cclass | Group rx

fun is_group :: "rx \<Rightarrow> bool" where
  "is_group (Group r) = True"
| "is_group r = False"

text \<open>The ways one item can match at the start of \<open>s\<close>, in the order the engine tries them:
  the text taken and the text left.\<close>

fun splits :: "rx \<Rightarrow> string \<Rightarrow> (string \<times> string) list" where
  "splits (Lit l) s = (if take (length l) s = l then [(l, drop (length l) s)] else [])"
| "splits (Star c) s =
     map (\<lambda>n. (take n s, drop n s)) (rev [0 ..< Suc (length (takeWhile (in_class c) s))])"
| "splits (Plus c) s =
     map (\<lambda>n. (take n s, drop n s)) (rev [1 ..< Suc (length (takeWhile (in_class c) s))])"
| "splits (Group r) s = splits r s"

fun first_some :: "('a \<Rightarrow> 'b option) \<Rightarrow> 'a list \<Rightarrow> 'b option" where
  "first_some f [] = None"
| "first_some f (x # xs) = (case f x of Some y \<Rightarrow> Some y | None \<Rightarrow> first_some f xs)"

text \<open>A match of the pattern at the start of \<open>s\<close>: the captured groups and the text after
  the match.\<close>

fun rmatch :: "rx list \<Rightarrow> string \<Rightarrow> (string list \<times> string) option" where
  "rmatch [] s = Some ([], s)"
| "rmatch (r # rs) s =
     first_some (\<lambda>(m, t). case rmatch rs t of
                              None \<Rightarrow> None
                            | Some (gs, u) \<Rightarrow> Some (if is_group r then m # gs else gs, u))
       (splits r s)"

text \<open>\<^verbatim>\<open>match.group(i)\<close> for \<open>i \<ge> 1\<close>, on the list of the captured groups.\<close>

definition group :: "string list \<Rightarrow> nat \<Rightarrow> error + string" where
  "group gs i = (if 1 \<le> i \<and> i \<le> length gs then Inr (gs ! (i - 1)) else Inl IndexError)"

text \<open>
  \<^verbatim>\<open>pattern.sub(repl, s)\<close> with a function \<open>repl\<close>: the text is scanned from the left; at the
  leftmost match the replacement is computed and the scan goes on after the match; a
  character where no match starts is copied. An exception of \<open>repl\<close> ends the scan.
  The patterns of the program never match the empty text (lemmas \<open>pattern_consumes\<close>,
  \<open>draw_pattern_consumes\<close>, \<open>hex_pattern_consumes\<close>); for an empty match the
  replacement is inserted and one character is copied.
\<close>

function sub :: "rx list \<Rightarrow> (string list \<Rightarrow> error + string) \<Rightarrow> string \<Rightarrow> error + string" where
  "sub p f s =
     (case rmatch p s of
        None \<Rightarrow> (case s of
                   [] \<Rightarrow> Inr []
                 | c # cs \<Rightarrow> (case sub p f cs of Inl e \<Rightarrow> Inl e | Inr out \<Rightarrow> Inr (c # out)))
      | Some (gs, t) \<Rightarrow>
          (case f gs of
             Inl e \<Rightarrow> Inl e
           | Inr r \<Rightarrow>
               if length t < length s
               then (case sub p f t of Inl e \<Rightarrow> Inl e | Inr out \<Rightarrow> Inr (r @ out))
               else (case s of
                       [] \<Rightarrow> Inr r
                     | c # cs \<Rightarrow> (case sub p f cs of
                                    Inl e \<Rightarrow> Inl e
                                  | Inr out \<Rightarrow> Inr (r @ c # out)))))"
  by pat_completeness auto
termination
  by (relation "measure (\<lambda>(p, f, s). length s)") auto

declare sub.simps [simp del]

text \<open>\<^verbatim>\<open>re.findall(p, s)\<close> for a pattern without groups: the matched texts, left to right.\<close>

function findall :: "rx list \<Rightarrow> string \<Rightarrow> string list" where
  "findall p s =
     (case rmatch p s of
        None \<Rightarrow> (case s of [] \<Rightarrow> [] | c # cs \<Rightarrow> findall p cs)
      | Some (gs, t) \<Rightarrow>
          if length t < length s
          then take (length s - length t) s # findall p t
          else [] # (case s of [] \<Rightarrow> [] | c # cs \<Rightarrow> findall p cs))"
  by pat_completeness auto
termination
  by (relation "measure (\<lambda>(p, s). length s)") auto

declare findall.simps [simp del]

section \<open>The array pass\<close>

text \<open>\<^verbatim>\<open>const\s+unsigned\s+char\s+(\w+)\s*\[\]\s*PROGMEM\s*=\s*\{([^}]+)\};\<close>\<close>

definition pattern :: "rx list" where
  "pattern =
     [Lit ''const'', Plus Space, Lit ''unsigned'', Plus Space, Lit ''char'', Plus Space,
      Group (Plus Word), Star Space, Lit ''[]'', Star Space, Lit ''PROGMEM'', Star Space,
      Lit ''='', Star Space, Lit ''{'', Group (Plus (Except (CHR ''}''))), Lit ''};'']"

text \<open>\<^verbatim>\<open>0x[0-9a-fA-F]+\<close>\<close>

definition hex_pattern :: "rx list" where
  "hex_pattern = [Lit ''0x'', Plus Hex]"

text \<open>A list comprehension whose element expression may raise.\<close>

fun map_result :: "('a \<Rightarrow> error + 'b) \<Rightarrow> 'a list \<Rightarrow> error + 'b list" where
  "map_result f [] = Inr []"
| "map_result f (x # xs) =
     (case f x of
        Inl e \<Rightarrow> Inl e
      | Inr y \<Rightarrow> (case map_result f xs of Inl e \<Rightarrow> Inl e | Inr ys \<Rightarrow> Inr (y # ys)))"

text \<open>\<^verbatim>\<open>sep.join(xs)\<close>\<close>

fun join :: "string \<Rightarrow> string list \<Rightarrow> string" where
  "join sep [] = []"
| "join sep [x] = x"
| "join sep (x # xs) = x @ sep @ join sep xs"

text \<open>\<^verbatim>\<open>s.split(sep)\<close>: \<open>acc\<close> is the piece read so far. An empty separator raises.\<close>

function split_from :: "string \<Rightarrow> string \<Rightarrow> string \<Rightarrow> string list" where
  "split_from sep acc s =
     (case s of
        [] \<Rightarrow> [acc]
      | c # cs \<Rightarrow>
          if sep \<noteq> [] \<and> take (length sep) s = sep
          then acc # split_from sep [] (drop (length sep) s)
          else split_from sep (acc @ [c]) cs)"
  by pat_completeness auto
termination
  by (relation "measure (\<lambda>(sep, acc, s). length s)") auto

declare split_from.simps [simp del]

definition split :: "string \<Rightarrow> string \<Rightarrow> error + string list" where
  "split s sep = (if sep = [] then Inl ValueError else Inr (split_from sep [] s))"

text \<open>
  \<^verbatim>\<open>values = [int(x.strip(), 16) for x in re.findall(r'0x[0-9a-fA-F]+', hex_data)]\<close>
\<close>

definition hex_values :: "string \<Rightarrow> error + int list" where
  "hex_values hex_data = map_result (\<lambda>x. py_int (strip x) 16) (findall hex_pattern hex_data)"

text \<open>\<^verbatim>\<open>f"0x{v:02x}"\<close>\<close>

definition hex_literal :: "int \<Rightarrow> string" where
  "hex_literal v = ''0x'' @ fmt_int 16 2 v"

text \<open>The body of the wrapping loop, on the pair of \<^verbatim>\<open>wrapped_data\<close> and \<^verbatim>\<open>cnt\<close>.\<close>

definition wrap_step :: "string \<times> nat \<Rightarrow> string \<Rightarrow> string \<times> nat" where
  "wrap_step st val =
     (let wrapped_data = fst st @ val @ '', '';
          cnt = snd st + 1
      in if cnt mod 12 = 0 then (wrapped_data @ [CHR 0x0A], cnt) else (wrapped_data, cnt))"

definition wrap :: "string list \<Rightarrow> string" where
  "wrap vals = strip_chars ('', '' @ [CHR 0x0A]) (fst (foldl wrap_step ([], 0) vals))"

definition replacement :: "string list \<Rightarrow> error + string" where
  "replacement gs =
     (case group gs 1 of Inl e \<Rightarrow> Inl e | Inr name \<Rightarrow>
      case group gs 2 of Inl e \<Rightarrow> Inl e | Inr hex_data \<Rightarrow>
      case hex_values hex_data of Inl e \<Rightarrow> Inl e | Inr values \<Rightarrow>
      case map_result reverse_bits values of Inl e \<Rightarrow> Inl e | Inr new_values \<Rightarrow>
      case split (join '', '' (map hex_literal new_values)) '', '' of Inl e \<Rightarrow> Inl e | Inr vals \<Rightarrow>
        Inr (''const unsigned char '' @ name @ ''[] PROGMEM = {'' @ wrap vals @ ''};''))"

definition array_pass :: "string \<Rightarrow> error + string" where
  "array_pass content = sub pattern replacement content"

section \<open>The call pass\<close>

text \<open>
  \<^verbatim>\<open>//\s*display\.drawBitmap\s*\(\s*([^,]+),\s*([^,]+),\s*([^,]+),\s*([^,]+),\s*([^,]+),\s*[^)]+\);\<close>
\<close>

definition draw_pattern :: "rx list" where
  "draw_pattern =
     [Lit ''//'', Star Space, Lit ''display.drawBitmap'', Star Space, Lit ''('', Star Space,
      Group (Plus (Except (CHR '',''))), Lit '','', Star Space,
      Group (Plus (Except (CHR '',''))), Lit '','', Star Space,
      Group (Plus (Except (CHR '',''))), Lit '','', Star Space,
      Group (Plus (Except (CHR '',''))), Lit '','', Star Space,
      Group (Plus (Except (CHR '',''))), Lit '','', Star Space,
      Plus (Except (CHR '')'')), Lit '');'']"

definition draw_replacement :: "string list \<Rightarrow> error + string" where
  "draw_replacement gs =
     (case group gs 1 of Inl e \<Rightarrow> Inl e | Inr g1 \<Rightarrow>
      case group gs 2 of Inl e \<Rightarrow> Inl e | Inr g2 \<Rightarrow>
      case group gs 3 of Inl e \<Rightarrow> Inl e | Inr g3 \<Rightarrow>
      case group gs 4 of Inl e \<Rightarrow> Inl e | Inr g4 \<Rightarrow>
      case group gs 5 of Inl e \<Rightarrow> Inl e | Inr g5 \<Rightarrow>
        (let x = strip g1; y = strip g2; bitmap = strip g3; w = strip g4; h = strip g5
         in Inr (''display.setDrawColor(1); display.drawXBMP('' @ x @ '', '' @ y @ '', ''
                   @ w @ '', '' @ h @ '', '' @ bitmap @ '');'')))"

definition call_pass :: "string \<Rightarrow> error + string" where
  "call_pass content = sub draw_pattern draw_replacement content"

section \<open>The pipeline\<close>

text \<open>\<^verbatim>\<open>process_file\<close> between reading the file and writing it back.\<close>

definition process :: "string \<Rightarrow> error + string" where
  "process content =
     (case array_pass content of Inl e \<Rightarrow> Inl e | Inr new_content \<Rightarrow> call_pass new_content)"

section \<open>Auxiliary notions for the proofs\<close>

text \<open>A digit of base \<open>b\<close>, and the value of a digit string read from the left.\<close>

definition isdigit_b :: "nat \<Rightarrow> char \<Rightarrow> bool" where
  "isdigit_b b c = (case digit_of c of None \<Rightarrow> False | Some d \<Rightarrow> d < b)"

definition val_b :: "nat \<Rightarrow> nat \<Rightarrow> string \<Rightarrow> nat" where
  "val_b b acc s = foldl (\<lambda>a c. a * b + the (digit_of c)) acc s"

text \<open>What \<^verbatim>\<open>'{:08b}'.format(n)\<close> is for a natural number.\<close>

definition pad8 :: "nat \<Rightarrow> string" where
  "pad8 n = replicate (8 - length (to_base 2 n)) (CHR ''0'') @ to_base 2 n"

text \<open>The texts one item of a pattern can take, and the groups captured along the
  pieces of a match.\<close>

fun fits :: "rx \<Rightarrow> string \<Rightarrow> bool" where
  "fits (Lit l) m = (m = l)"
| "fits (Star c) m = list_all (in_class c) m"
| "fits (Plus c) m = (m \<noteq> [] \<and> list_all (in_class c) m)"
| "fits (Group r) m = fits r m"

fun captures :: "rx list \<Rightarrow> string list \<Rightarrow> string list" where
  "captures (r # rs) (m # ms) = (if is_group r then m # captures rs ms else captures rs ms)"
| "captures rs ms = []"

text \<open>No match of the pattern starts anywhere in the text.\<close>

fun no_match :: "rx list \<Rightarrow> string \<Rightarrow> bool" where
  "no_match p [] = (rmatch p [] = None)"
| "no_match p (c # cs) = (rmatch p (c # cs) = None \<and> no_match p cs)"

text \<open>The class \<^verbatim>\<open>[0-9a-f]\<close>.\<close>

definition islowhex :: "char \<Rightarrow> bool" where
  "islowhex c = ((48 \<le> ord c \<and> ord c \<le> 57) \<or> (97 \<le> ord c \<and> ord c \<le> 102))"

text \<open>
  The layout of the byte list as the specification words it: the literals separated by a
  comma and a space, a line break after every 12th literal, nothing after the last one.
  \<open>k\<close> is the number of literals already laid out.
\<close>

fun spec_layout :: "nat \<Rightarrow> string list \<Rightarrow> string" where
  "spec_layout k [] = []"
| "spec_layout k [l] = l"
| "spec_layout k (l # ls) =
     l @ '', '' @ (if Suc k mod 12 = 0 then [CHR 0x0A] else []) @ spec_layout (Suc k) ls"

text \<open>What the wrapping loop appends for a list of pieces.\<close>

fun loop_text :: "nat \<Rightarrow> string list \<Rightarrow> string" where
  "loop_text k [] = []"
| "loop_text k (l # ls) =
     l @ '', '' @ (if Suc k mod 12 = 0 then [CHR 0x0A] else []) @ loop_text (Suc k) ls"

text \<open>The text the replacement returns:
  \<^verbatim>\<open>f"const unsigned char {name}[] PROGMEM = {{{wrapped_data}}};"\<close>\<close>

definition decl_text :: "string \<Rightarrow> string \<Rightarrow> string" where
  "decl_text name body = ''const unsigned char '' @ name @ ''[] PROGMEM = {'' @ body @ ''};''"

text \<open>The characters that \<^verbatim>\<open>strip(", \n")\<close> removes.\<close>

definition is_sep :: "char \<Rightarrow> bool" where
  "is_sep c = (c \<in> set ('', '' @ [CHR 0x0A]))"

text \<open>A repetition cannot take more than its piece when the text after the piece is empty or
  starts outside the class.\<close>

fun stops :: "rx \<Rightarrow> string \<Rightarrow> bool" where
  "stops (Lit l) t = True"
| "stops (Star c) t = (t = [] \<or> \<not> in_class c (hd t))"
| "stops (Plus c) t = (t = [] \<or> \<not> in_class c (hd t))"
| "stops (Group r) t = stops r t"

text \<open>The pieces fit the items of the pattern, and every repetition stops at the end of its
  piece: the greedy choice of the engine is the pieces.\<close>

fun tight :: "rx list \<Rightarrow> string list \<Rightarrow> string \<Rightarrow> bool" where
  "tight [] [] u = True"
| "tight (r # rs) (m # ms) u = (fits r m \<and> stops r (concat ms @ u) \<and> tight rs ms u)"
| "tight rs ms u = False"

text \<open>The lowercase spelling of a hexadecimal digit: \<^verbatim>\<open>A\<close> to \<^verbatim>\<open>F\<close> become \<^verbatim>\<open>a\<close> to \<^verbatim>\<open>f\<close>.\<close>

definition lower_hex :: "char \<Rightarrow> char" where
  "lower_hex c = (if 65 \<le> ord c \<and> ord c \<le> 70 then char_of (ord c + 32) else c)"

text \<open>
  The text \<open>t\<close> is \<open>g\<close> without the white space at its two ends: \<open>g\<close> is \<open>t\<close> between two
  runs of white space, and \<open>t\<close> is empty or begins and ends with a character that is not
  white space.
\<close>

definition trimmed :: "string \<Rightarrow> string \<Rightarrow> bool" where
  "trimmed g t =
     (\<exists>l r. g = l @ t @ r \<and> list_all isspace l \<and> list_all isspace r
            \<and> (t = [] \<or> (\<not> isspace (hd t) \<and> \<not> isspace (last t))))"


text \<open>
  The text begins like a commented-out call: \<^verbatim>\<open>//\<close>, optional white space,
  \<^verbatim>\<open>display.drawBitmap\<close>.
\<close>

fun starts_call :: "string \<Rightarrow> bool" where
  "starts_call (c0 # c1 # r) =
     (c0 = CHR ''/'' \<and> c1 = CHR ''/''
      \<and> take 18 (dropWhile isspace r) = ''display.drawBitmap'')"
| "starts_call t = False"

text \<open>No place of the text begins like a commented-out call.\<close>

fun no_call_in :: "string \<Rightarrow> bool" where
  "no_call_in [] = True"
| "no_call_in (c # cs) = (\<not> starts_call (c # cs) \<and> no_call_in cs)"

text \<open>
  Every place of the buffer that begins like a commented-out call is the start of a call
  the call pass rewrites: the text the scan copies has no such place, and none of the five
  captured fragments of a rewritten call has one. (The trailing arguments, which are
  dropped, may.)
\<close>

function calls_rewritten :: "string \<Rightarrow> bool" where
  "calls_rewritten s =
     (case rmatch draw_pattern s of
        None \<Rightarrow> (case s of [] \<Rightarrow> True | c # cs \<Rightarrow> \<not> starts_call s \<and> calls_rewritten cs)
      | Some (gs, t) \<Rightarrow>
          if length t < length s then list_all no_call_in gs \<and> calls_rewritten t else False)"
  by pat_completeness auto
termination
  by (relation "measure length") auto

declare calls_rewritten.simps [simp del]

text \<open>The text the call replacement returns:
  \<^verbatim>\<open>f"display.setDrawColor(1); display.drawXBMP({x}, {y}, {w}, {h}, {bitmap});"\<close>\<close>

definition call_text :: "string \<Rightarrow> string \<Rightarrow> string \<Rightarrow> string \<Rightarrow> string \<Rightarrow> string" where
  "call_text x y w h bitmap =
     ''display.setDrawColor(1); display.drawXBMP('' @ x @ '', '' @ y @ '', '' @ w @ '', ''
       @ h @ '', '' @ bitmap @ '');''"

section \<open>Digits and integer literals\<close>

lemma ord_inj: "ord c = ord d \<longleftrightarrow> c = d"
  by (simp add: ord_def)

lemma ord_char_of: "n < 256 \<Longrightarrow> ord (char_of n) = n"
  by (simp add: ord_def)

lemma digit_of_digit_char: "d < 16 \<Longrightarrow> digit_of (digit_char d) = Some d"
  by (auto simp: digit_of_def digit_char_def ord_def)

lemma isdigit_b_not_us: "isdigit_b b c \<Longrightarrow> c \<noteq> CHR ''_''"
  by (auto simp: isdigit_b_def digit_of_def ord_def)

lemma int_digits_all:
  "\<forall>c\<in>set ds. isdigit_b b c \<Longrightarrow> ds \<noteq> [] \<or> fin \<Longrightarrow>
   int_digits b us fin acc ds = Some (val_b b acc ds)"
proof (induction ds arbitrary: us fin acc)
  case Nil
  then show ?case by (simp add: val_b_def)
next
  case (Cons c cs)
  from Cons.prems have c: "isdigit_b b c" by simp
  then obtain d where d: "digit_of c = Some d" "d < b"
    by (auto simp: isdigit_b_def split: option.splits)
  have "int_digits b True True (acc * b + d) cs = Some (val_b b (acc * b + d) cs)"
    using Cons.prems by (intro Cons.IH) auto
  then show ?case using d isdigit_b_not_us[OF c] by (simp add: val_b_def)
qed

lemma val_b_append: "val_b b acc (xs @ ys) = val_b b (val_b b acc xs) ys"
  by (simp add: val_b_def)

lemma val_b_snoc: "val_b b 0 (s @ [c]) = val_b b 0 s * b + the (digit_of c)"
  by (simp add: val_b_def)

lemma val_b_zeros: "val_b b 0 (replicate j (CHR ''0'') @ s) = val_b b 0 s"
  by (induction j) (auto simp: val_b_def digit_of_def ord_def)

lemma to_base_small: "n < b \<Longrightarrow> to_base b n = [digit_char n]"
  by (subst to_base.simps) simp

lemma to_base_step:
  "2 \<le> b \<Longrightarrow> \<not> n < b \<Longrightarrow> to_base b n = to_base b (n div b) @ [digit_char (n mod b)]"
  by (subst to_base.simps) simp

lemma val_b_to_base: "2 \<le> b \<Longrightarrow> b \<le> 16 \<Longrightarrow> val_b b 0 (to_base b n) = n"
proof (induction b n rule: to_base.induct)
  case (1 b n)
  show ?case
  proof (cases "n < b")
    case True
    then show ?thesis using 1(2,3)
      by (simp add: to_base_small val_b_def digit_of_digit_char)
  next
    case False
    then have ih: "val_b b 0 (to_base b (n div b)) = n div b" using 1 by simp
    have "n mod b < b" using 1(2) by simp
    then have "n mod b < 16" using 1(3) by linarith
    then have dg: "digit_of (digit_char (n mod b)) = Some (n mod b)"
      by (rule digit_of_digit_char)
    show ?thesis using ih dg by (simp add: to_base_step[OF 1(2) False] val_b_snoc)
  qed
qed

lemma to_base_digits: "2 \<le> b \<Longrightarrow> b \<le> 16 \<Longrightarrow> c \<in> set (to_base b n) \<Longrightarrow> isdigit_b b c"
proof (induction b n rule: to_base.induct)
  case (1 b n)
  show ?case
  proof (cases "n < b")
    case True
    then show ?thesis using 1(2,3,4) by (simp add: to_base_small isdigit_b_def digit_of_digit_char)
  next
    case False
    have m: "n mod b < b" using 1(2) by simp
    then have "n mod b < 16" using 1(3) by linarith
    then have dg: "digit_of (digit_char (n mod b)) = Some (n mod b)"
      by (rule digit_of_digit_char)
    show ?thesis using False 1 dg m by (auto simp: to_base_step[OF 1(2) False] isdigit_b_def)
  qed
qed

lemma to_base_length: "2 \<le> b \<Longrightarrow> 0 < k \<Longrightarrow> n < b ^ k \<Longrightarrow> length (to_base b n) \<le> k"
proof (induction b n arbitrary: k rule: to_base.induct)
  case (1 b n)
  show ?case
  proof (cases "n < b")
    case True
    then show ?thesis using 1(3) by (simp add: to_base_small)
  next
    case False
    with 1(2,3,4) have "k \<noteq> 1" by auto
    with 1(3) obtain j where j: "k = Suc j" "0 < j" by (cases k) auto
    have "n div b < b ^ j" using 1(2,4) j
      by (simp add: less_mult_imp_div_less mult.commute)
    then have "length (to_base b (n div b)) \<le> j" using 1 False j by simp
    then show ?thesis using j by (simp add: to_base_step[OF 1(2) False])
  qed
qed

lemma strip_by_id: "s \<noteq> [] \<Longrightarrow> \<not> P (hd s) \<Longrightarrow> \<not> P (last s) \<Longrightarrow> strip_by P s = s"
proof -
  assume a: "s \<noteq> []" "\<not> P (hd s)" "\<not> P (last s)"
  then have 1: "dropWhile P s = s" by (cases s) auto
  from a have "rev s \<noteq> []" "\<not> P (hd (rev s))" by (auto simp: hd_rev)
  then have "dropWhile P (rev s) = rev s" by (cases "rev s") auto
  with 1 show ?thesis by (simp add: strip_by_def)
qed

lemma isdigit_b_plain:
  "isdigit_b b c \<Longrightarrow> b \<le> 16 \<Longrightarrow>
   \<not> int_space c \<and> c \<noteq> CHR ''-'' \<and> c \<noteq> CHR ''+'' \<and> c \<noteq> CHR ''x'' \<and> c \<noteq> CHR ''X''"
  by (auto simp: isdigit_b_def digit_of_def int_space_def ord_def split: if_splits)

lemma isdigit_2_cases: "isdigit_b 2 c \<longleftrightarrow> c = CHR ''0'' \<or> c = CHR ''1''"
proof
  assume "isdigit_b 2 c"
  then have "ord c = 48 \<or> ord c = 49"
    by (auto simp: isdigit_b_def digit_of_def split: if_splits)
  then have "ord c = ord (CHR ''0'') \<or> ord c = ord (CHR ''1'')"
    by (simp add: ord_def)
  then show "c = CHR ''0'' \<or> c = CHR ''1''" by (simp only: ord_inj)
qed (auto simp: isdigit_b_def digit_of_def ord_def)

lemma digit_char_01: "digit_char 0 = CHR ''0''" "digit_char (Suc 0) = CHR ''1''"
  by (simp_all add: ord_inj[symmetric] digit_char_def ord_char_of) (simp_all add: ord_def)

text \<open>A string of digits is read as its value: there is no sign, no prefix and no
  underscore to take care of.\<close>

lemma py_int_digits:
  assumes "\<forall>c\<in>set s. isdigit_b b c" "s \<noteq> []" "b = 2 \<or> b = 16"
  shows "py_int s b = Inr (int (val_b b 0 s))"
proof -
  have b16: "b \<le> 16" using assms(3) by auto
  have h: "isdigit_b b (hd s)" and l: "isdigit_b b (last s)" using assms(1,2) by auto
  have st: "strip_by int_space s = s"
    using isdigit_b_plain[OF h b16] isdigit_b_plain[OF l b16] assms(2) by (intro strip_by_id) auto
  have sg: "int_sign s = (False, s)"
    using isdigit_b_plain[OF h b16] assms(2) by (cases s) (auto simp: int_sign_def)
  have pf: "int_prefix b s = (False, s)"
  proof (cases s)
    case Nil then show ?thesis by (simp add: int_prefix_def)
  next
    case (Cons c0 t)
    show ?thesis
    proof (cases t)
      case Nil then show ?thesis using Cons by (simp add: int_prefix_def)
    next
      case (Cons c1 u)
      have c1: "isdigit_b b c1" using assms(1) \<open>s = c0 # t\<close> Cons by simp
      have "c1 \<noteq> CHR ''x''" "c1 \<noteq> CHR ''X''" using isdigit_b_plain[OF c1 b16] by auto
      moreover have "b = 2 \<Longrightarrow> c1 \<noteq> CHR ''b'' \<and> c1 \<noteq> CHR ''B''"
        using c1 by (auto simp: isdigit_2_cases)
      ultimately show ?thesis using \<open>s = c0 # t\<close> Cons assms(3) by (auto simp: int_prefix_def)
    qed
  qed
  have "int_digits b False False 0 s = Some (val_b b 0 s)"
    using assms(1,2) by (intro int_digits_all) auto
  then show ?thesis by (simp add: py_int_def st sg pf)
qed

text \<open>Formatting the value of a string of binary digits, to the width of the string,
  gives the string back.\<close>

lemma bin_roundtrip:
  assumes "bs \<noteq> []" "\<forall>c\<in>set bs. isdigit_b 2 c"
  shows "val_b 2 0 bs < 2 ^ length bs \<and>
         replicate (length bs - length (to_base 2 (val_b 2 0 bs))) (CHR ''0'')
           @ to_base 2 (val_b 2 0 bs) = bs"
  using assms
proof (induction bs rule: rev_nonempty_induct)
  case (single c)
  then have "c = CHR ''0'' \<or> c = CHR ''1''" by (simp add: isdigit_2_cases)
  then show ?case
    by (auto simp: val_b_def digit_of_def ord_def to_base_small digit_char_01)
next
  case (snoc c bs)
  let ?m = "val_b 2 0 bs"
  have c: "c = CHR ''0'' \<or> c = CHR ''1''" using snoc.prems by (simp add: isdigit_2_cases)
  then obtain d where d: "the (digit_of c) = d" "d < 2" "digit_char d = c"
    by (auto simp: digit_of_def ord_def digit_char_01)
  have ih: "?m < 2 ^ length bs"
     "replicate (length bs - length (to_base 2 ?m)) (CHR ''0'') @ to_base 2 ?m = bs"
    using snoc by auto
  have v: "val_b 2 0 (bs @ [c]) = ?m * 2 + d" using d by (simp add: val_b_snoc)
  have bound: "?m * 2 + d < 2 ^ length (bs @ [c])" using ih(1) d(2) by simp
  have len: "length (to_base 2 ?m) \<le> length bs"
    using ih(1) snoc.hyps by (intro to_base_length) auto
  show ?case
  proof (cases "?m = 0")
    case True
    have tb0: "to_base 2 (0::nat) = ''0''" by (simp add: to_base_small digit_char_01)
    have tb: "to_base 2 d = [c]" using d by (simp add: to_base_small)
    from ih(2) True tb0 have "bs = replicate (length bs - 1) (CHR ''0'') @ ''0''" by simp
    then have "bs = replicate (Suc (length bs - 1)) (CHR ''0'')"
      by (simp only: replicate_append_same replicate_Suc[symmetric])
    then have "bs = replicate (length bs) (CHR ''0'')" using snoc.hyps by simp
    then show ?thesis using v bound True tb by simp
  next
    case False
    then have "\<not> (?m * 2 + d < 2)" by simp
    then have "to_base 2 (?m * 2 + d)
                 = to_base 2 ((?m * 2 + d) div 2) @ [digit_char ((?m * 2 + d) mod 2)]"
      by (intro to_base_step) auto
    moreover have "(?m * 2 + d) div 2 = ?m" "(?m * 2 + d) mod 2 = d" using d(2) by auto
    ultimately have tb: "to_base 2 (?m * 2 + d) = to_base 2 ?m @ [c]" using d(3) by simp
    show ?thesis using v bound tb ih(2) len by (simp add: Suc_diff_le)
  qed
qed

section \<open>The matcher\<close>


lemma first_some_Some: "first_some f xs = Some y \<Longrightarrow> \<exists>x\<in>set xs. f x = Some y"
  by (induction xs) (auto split: option.splits)

lemma first_some_None: "first_some f xs = None \<longleftrightarrow> (\<forall>x\<in>set xs. f x = None)"
  by (induction xs) (auto split: option.splits)

lemma first_some_hd: "f x = Some y \<Longrightarrow> first_some f (x # xs) = Some y"
  by simp

lemma take_takeWhile: "n \<le> length (takeWhile P s) \<Longrightarrow> list_all P (take n s)"
proof -
  assume "n \<le> length (takeWhile P s)"
  then have "take n s = take n (takeWhile P s)"
    by (metis append_eq_conv_conj min.absorb2 take_append take_take takeWhile_dropWhile_id length_take take_all_iff
        append_take_drop_id takeWhile_eq_take)
  then show ?thesis by (metis list_all_iff set_takeWhileD in_set_takeD)
qed

lemma splits_sound: "(m, t) \<in> set (splits r s) \<Longrightarrow> s = m @ t \<and> fits r m"
proof (induction r)
  case (Lit l)
  then show ?case by (auto split: if_splits) (metis append_take_drop_id)
next
  case (Star c)
  then show ?case by (auto simp: take_takeWhile)
next
  case (Plus c)
  then show ?case by (auto simp: take_takeWhile) 
next
  case (Group r)
  then show ?case by simp
qed

lemma rmatch_sound:
  "rmatch rs s = Some (gs, u) \<Longrightarrow>
   \<exists>ms. list_all2 fits rs ms \<and> s = concat ms @ u \<and> gs = captures rs ms"
proof (induction rs arbitrary: s gs u)
  case Nil
  then show ?case by simp
next
  case (Cons r rs)
  from Cons.prems obtain m t where mt: "(m, t) \<in> set (splits r s)"
    and c: "(case rmatch rs t of None \<Rightarrow> None
             | Some (gs', u') \<Rightarrow> Some (if is_group r then m # gs' else gs', u')) = Some (gs, u)"
    by (auto dest!: first_some_Some)
  from c obtain gs' where r: "rmatch rs t = Some (gs', u)"
    and g: "gs = (if is_group r then m # gs' else gs')"
    by (auto split: option.splits)
  from Cons.IH[OF r] obtain ms where ms: "list_all2 fits rs ms" "t = concat ms @ u" "gs' = captures rs ms"
    by blast
  from splits_sound[OF mt] have "s = m @ t" "fits r m" by auto
  with ms g have "list_all2 fits (r # rs) (m # ms) \<and> s = concat (m # ms) @ u \<and> gs = captures (r # rs) (m # ms)"
    by simp
  then show ?case by blast
qed

lemma rmatch_Lit: "rmatch (Lit l # rs) s = (if take (length l) s = l then rmatch rs (drop (length l) s) else None)"
  by (auto split: option.splits)

lemma rmatch_Lit_app: "rmatch (Lit l # rs) (l @ s) = rmatch rs s"
  by (subst rmatch_Lit) simp

lemma rmatch_first:
  assumes "splits r s = (m, t) # rest" "rmatch rs t = Some (gs, u)"
  shows "rmatch (r # rs) s = Some (if is_group r then m # gs else gs, u)"
  using assms by simp

declare rmatch.simps(2) [simp del]

lemma takeWhile_run:
  "list_all P m \<Longrightarrow> t = [] \<or> \<not> P (hd t) \<Longrightarrow> takeWhile P (m @ t) = m"
  by (cases t) (auto simp: list_all_iff)

lemma rev_upt_Suc: "i \<le> n \<Longrightarrow> rev [i ..< Suc n] = n # rev [i ..< n]"
  by simp

lemma splits_Star_greedy:
  assumes "list_all (in_class c) m" "t = [] \<or> \<not> in_class c (hd t)"
  shows "\<exists>rest. splits (Star c) (m @ t) = (m, t) # rest"
  using takeWhile_run[OF assms] by simp

lemma splits_Plus_greedy:
  assumes "m \<noteq> []" "list_all (in_class c) m" "t = [] \<or> \<not> in_class c (hd t)"
  shows "\<exists>rest. splits (Plus c) (m @ t) = (m, t) # rest"
proof -
  have "1 \<le> length m" using assms(1) by (cases m) auto
  then show ?thesis using takeWhile_run[OF assms(2,3)] by (simp add: rev_upt_Suc)
qed

lemma rmatch_Star_greedy:
  assumes "list_all (in_class c) m" "t = [] \<or> \<not> in_class c (hd t)" "rmatch rs t = Some (gs, u)"
  shows "rmatch (Star c # rs) (m @ t) = Some (gs, u)"
  using splits_Star_greedy[OF assms(1,2)] rmatch_first[OF _ assms(3), of "Star c" "m @ t" m] by auto

lemma rmatch_Plus_greedy:
  assumes "m \<noteq> []" "list_all (in_class c) m" "t = [] \<or> \<not> in_class c (hd t)"
    "rmatch rs t = Some (gs, u)"
  shows "rmatch (Plus c # rs) (m @ t) = Some (gs, u)"
  using splits_Plus_greedy[OF assms(1,2,3)] rmatch_first[OF _ assms(4), of "Plus c" "m @ t" m] by auto

lemma rmatch_Group_Plus_greedy:
  assumes "m \<noteq> []" "list_all (in_class c) m" "t = [] \<or> \<not> in_class c (hd t)"
    "rmatch rs t = Some (gs, u)"
  shows "rmatch (Group (Plus c) # rs) (m @ t) = Some (m # gs, u)"
  using splits_Plus_greedy[OF assms(1,2,3)] rmatch_first[OF _ assms(4), of "Group (Plus c)" "m @ t" m] by auto

lemma rmatch_suffix: "rmatch rs s = Some (gs, u) \<Longrightarrow> \<exists>m. s = m @ u"
  by (blast dest: rmatch_sound)

lemma rmatch_Lit_consumes:
  assumes "rmatch (Lit l # rs) s = Some (gs, u)"
  shows "\<exists>t. s = l @ t \<and> length u \<le> length t"
proof -
  from assms have p: "take (length l) s = l" and r: "rmatch rs (drop (length l) s) = Some (gs, u)"
    by (auto simp: rmatch_Lit split: if_splits)
  from rmatch_suffix[OF r] obtain m where "drop (length l) s = m @ u" by blast
  then have "length u \<le> length (drop (length l) s)" by simp
  moreover have "s = l @ drop (length l) s" using p by (metis append_take_drop_id)
  ultimately show ?thesis by blast
qed

section \<open>Scanning a text\<close>


lemma sub_Nil: "rmatch p [] = None \<Longrightarrow> sub p f [] = Inr []"
  by (subst sub.simps) simp

lemma sub_skip:
  "rmatch p (c # cs) = None \<Longrightarrow>
   sub p f (c # cs) = (case sub p f cs of Inl e \<Rightarrow> Inl e | Inr out \<Rightarrow> Inr (c # out))"
  by (subst sub.simps) simp

lemma sub_match:
  "rmatch p s = Some (gs, t) \<Longrightarrow> length t < length s \<Longrightarrow> f gs = Inr r \<Longrightarrow>
   sub p f s = (case sub p f t of Inl e \<Rightarrow> Inl e | Inr out \<Rightarrow> Inr (r @ out))"
  by (subst sub.simps) simp

lemma sub_no_match: "no_match p s \<Longrightarrow> sub p f s = Inr s"
  by (induction s) (simp_all add: sub_Nil sub_skip)

lemma findall_Nil: "rmatch p [] = None \<Longrightarrow> findall p [] = []"
  by (subst findall.simps) simp

lemma findall_skip: "rmatch p (c # cs) = None \<Longrightarrow> findall p (c # cs) = findall p cs"
  by (subst findall.simps) simp

lemma findall_match:
  "rmatch p s = Some (gs, t) \<Longrightarrow> length t < length s \<Longrightarrow>
   findall p s = take (length s - length t) s # findall p t"
  by (subst findall.simps) simp

lemma pattern_consumes: "rmatch pattern s = Some (gs, t) \<Longrightarrow> length t < length s"
  unfolding pattern_def by (drule rmatch_Lit_consumes) auto

lemma draw_pattern_consumes: "rmatch draw_pattern s = Some (gs, t) \<Longrightarrow> length t < length s"
  unfolding draw_pattern_def by (drule rmatch_Lit_consumes) auto

lemma hex_pattern_consumes: "rmatch hex_pattern s = Some (gs, t) \<Longrightarrow> length t < length s"
  unfolding hex_pattern_def by (drule rmatch_Lit_consumes) auto

lemma draw_pattern_start: "rmatch draw_pattern s = Some (gs, t) \<Longrightarrow> \<exists>u. s = ''//'' @ u"
  unfolding draw_pattern_def by (drule rmatch_Lit_consumes) auto

lemma pattern_start: "rmatch pattern s = Some (gs, t) \<Longrightarrow> \<exists>u. s = ''const'' @ u"
  unfolding pattern_def by (drule rmatch_Lit_consumes) auto

lemma rmatch_hex_Some:
  assumes "ds \<noteq> []" "list_all ishex ds" "t = [] \<or> \<not> ishex (hd t)"
  shows "rmatch hex_pattern (''0x'' @ ds @ t) = Some ([], t)"
proof -
  have "rmatch [Plus Hex] (ds @ t) = Some ([], t)"
    using assms by (intro rmatch_Plus_greedy) (auto simp: list_all_iff)
  then show ?thesis unfolding hex_pattern_def by (subst rmatch_Lit_app)
qed

lemma rmatch_hex_shape:
  assumes "rmatch hex_pattern s = Some (gs, t)"
  shows "\<exists>ds. s = ''0x'' @ ds @ t \<and> ds \<noteq> [] \<and> list_all ishex ds"
proof -
  from rmatch_sound[OF assms] obtain ms where
    ms: "list_all2 fits hex_pattern ms" "s = concat ms @ t" by blast
  from ms(1) obtain m1 m2 where "ms = [m1, m2]" "fits (Lit ''0x'') m1" "fits (Plus Hex) m2"
    unfolding hex_pattern_def by (auto simp: list_all2_Cons1)
  with ms(2) show ?thesis by (auto simp: list_all_iff)
qed

lemma rmatch_hex_None:
  assumes "\<not> (\<exists>c u. s = ''0x'' @ c # u \<and> ishex c)"
  shows "rmatch hex_pattern s = None"
proof (rule ccontr)
  assume "rmatch hex_pattern s \<noteq> None"
  then obtain gs t where "rmatch hex_pattern s = Some (gs, t)" by auto
  from rmatch_hex_shape[OF this] obtain ds where "s = ''0x'' @ ds @ t" "ds \<noteq> []" "list_all ishex ds"
    by blast
  then show False using assms by (cases ds) auto
qed

section \<open>The bit-order transform on bytes\<close>

lemma fmt_int_2_8: "0 \<le> v \<Longrightarrow> fmt_int 2 8 v = pad8 (nat v)"
  by (simp add: fmt_int_def pad8_def Let_def)

lemma pad8_props:
  assumes "n < 256"
  shows "length (pad8 n) = 8" "\<forall>c\<in>set (pad8 n). isdigit_b 2 c" "val_b 2 0 (pad8 n) = n"
proof -
  have "length (to_base 2 n) \<le> 8" using assms by (intro to_base_length) auto
  then show "length (pad8 n) = 8" by (simp add: pad8_def)
  show "\<forall>c\<in>set (pad8 n). isdigit_b 2 c"
    by (auto simp: pad8_def isdigit_2_cases dest: to_base_digits[of 2, rotated 2])
  show "val_b 2 0 (pad8 n) = n" by (simp add: pad8_def val_b_zeros val_b_to_base)
qed

lemma reverse_bits_byte:
  assumes "0 \<le> v" "v \<le> 255"
  shows "\<exists>r. reverse_bits v = Inr r \<and> 0 \<le> r \<and> r \<le> 255 \<and> reverse_bits r = Inr v"
proof -
  let ?p = "pad8 (nat v)"
  let ?r = "val_b 2 0 (rev ?p)"
  have n: "nat v < 256" using assms by simp
  note pp = pad8_props[OF n]
  have ne: "rev ?p \<noteq> []" using pp(1) by auto
  have dg: "\<forall>c\<in>set (rev ?p). isdigit_b 2 c" using pp(2) by simp
  have r1: "reverse_bits v = Inr (int ?r)"
    using py_int_digits[OF dg ne] assms(1) by (simp add: reverse_bits_def fmt_int_2_8)
  from bin_roundtrip[OF ne dg] pp(1)
  have rb: "?r < 256" and bk: "pad8 ?r = rev ?p" by (simp_all add: pad8_def)
  have ne2: "?p \<noteq> []" using pp(1) by auto
  have "reverse_bits (int ?r) = py_int (rev (pad8 ?r)) 2"
    by (simp add: reverse_bits_def fmt_int_2_8)
  also have "\<dots> = py_int ?p 2" by (simp add: bk)
  also have "\<dots> = Inr (int (val_b 2 0 ?p))" using py_int_digits[OF pp(2) ne2] by simp
  also have "\<dots> = Inr v" using pp(3) assms(1) by simp
  finally show ?thesis using r1 rb by auto
qed

text \<open>
  Claim C1. For every byte value \<open>v\<close> from 0 to 255, \<open>reverse_bits\<close> returns a value
  from 0 to 255, and \<open>reverse_bits\<close> of that value returns \<open>v\<close>: the transform is an
  involution on the bytes.
\<close>

theorem reverse_bits_involution:
  assumes "0 \<le> v" "v \<le> 255"
  shows "\<exists>r. reverse_bits v = Inr r \<and> 0 \<le> r \<and> r \<le> 255 \<and> reverse_bits r = Inr v"
  using assms by (rule reverse_bits_byte)

theorem reverse_bits_involution_witness:
  "\<exists>r. reverse_bits 1 = Inr r \<and> 0 \<le> r \<and> r \<le> 255 \<and> reverse_bits r = Inr 1"
  using reverse_bits_involution [of 1] by simp

section \<open>Tokens, literals and the layout of the byte list\<close>

lemma islowhex_ishex: "islowhex c \<Longrightarrow> ishex c"
  by (auto simp: islowhex_def ishex_def)

lemma ishex_digit: "ishex c \<Longrightarrow> isdigit_b 16 c"
  by (auto simp: ishex_def isdigit_b_def digit_of_def)

lemma ishex_plain: "ishex c \<Longrightarrow> \<not> isspace c \<and> c \<noteq> CHR '','' \<and> c \<noteq> CHR ''}''"
  by (auto simp: ishex_def isspace_def ord_def)

lemma py_int_hex_token:
  assumes "ds \<noteq> []" "list_all ishex ds"
  shows "py_int (strip (CHR ''0'' # CHR ''x'' # ds)) 16 = Inr (int (val_b 16 0 ds))"
proof -
  let ?t = "CHR ''0'' # CHR ''x'' # ds"
  have l: "ishex (last ds)" using assms by (simp add: list_all_iff)
  have lt: "last ?t = last ds" using assms(1) by simp
  have "\<not> isspace (hd ?t)" by (simp add: isspace_def ord_def)
  moreover have "\<not> isspace (last ?t)" using ishex_plain[OF l] lt by simp
  ultimately have st: "strip ?t = ?t" unfolding strip_def by (intro strip_by_id) auto
  have "\<not> int_space (hd ?t)" by (simp add: int_space_def ord_def)
  moreover have "\<not> int_space (last ?t)"
    using isdigit_b_plain[OF ishex_digit[OF l]] lt by simp
  ultimately have st2: "strip_by int_space ?t = ?t" by (intro strip_by_id) auto
  have sg: "int_sign ?t = (False, ?t)" by (simp add: int_sign_def)
  have pf: "int_prefix 16 ?t = (True, ds)" by (simp add: int_prefix_def)
  have "int_digits 16 True False 0 ds = Some (val_b 16 0 ds)"
    using assms by (intro int_digits_all) (auto simp: list_all_iff ishex_digit)
  then show ?thesis by (simp add: py_int_def st st2 sg pf)
qed

lemma findall_hex_shape:
  "t \<in> set (findall hex_pattern s) \<Longrightarrow> \<exists>ds. t = ''0x'' @ ds \<and> ds \<noteq> [] \<and> list_all ishex ds"
proof (induction s rule: length_induct)
  case (1 s)
  show ?case
  proof (cases "rmatch hex_pattern s")
    case None
    show ?thesis
    proof (cases s)
      case Nil
      with None "1.prems" show ?thesis by (simp add: findall_Nil)
    next
      case (Cons c cs)
      with None "1.prems" have "t \<in> set (findall hex_pattern cs)" by (simp add: findall_skip)
      moreover have "length cs < length s" using Cons by simp
      ultimately show ?thesis using "1.IH" by blast
    qed
  next
    case (Some a)
    then obtain gs u where m: "rmatch hex_pattern s = Some (gs, u)" by (cases a) auto
    note len = hex_pattern_consumes[OF m]
    from rmatch_hex_shape[OF m] obtain ds where ds: "s = ''0x'' @ ds @ u" "ds \<noteq> []" "list_all ishex ds"
      by blast
    then have tk: "take (length s - length u) s = ''0x'' @ ds" by simp
    from "1.prems" have "t = ''0x'' @ ds \<or> t \<in> set (findall hex_pattern u)"
      by (simp add: findall_match[OF m len] tk)
    with "1.IH" len ds show ?thesis by blast
  qed
qed

lemma map_result_all: "\<forall>x\<in>set xs. f x = Inr (g x) \<Longrightarrow> map_result f xs = Inr (map g xs)"
  by (induction xs) auto

lemma hex_values_total:
  "hex_values s = Inr (map (\<lambda>t. int (val_b 16 0 (drop 2 t))) (findall hex_pattern s))"
  unfolding hex_values_def
proof (rule map_result_all, rule ballI)
  fix x assume "x \<in> set (findall hex_pattern s)"
  from findall_hex_shape[OF this] obtain ds where "x = ''0x'' @ ds" "ds \<noteq> []" "list_all ishex ds"
    by blast
  then show "py_int (strip x) 16 = Inr (int (val_b 16 0 (drop 2 x)))"
    by (simp add: py_int_hex_token)
qed

lemma to_base_nonempty: "to_base b n \<noteq> []"
  by (subst to_base.simps) simp

lemma digit_char_lowhex: "d < 16 \<Longrightarrow> islowhex (digit_char d)"
  by (auto simp: islowhex_def digit_char_def ord_char_of)

lemma to_base_lowhex: "c \<in> set (to_base 16 n) \<Longrightarrow> islowhex c"
proof (induction "16::nat" n rule: to_base.induct)
  case (1 n)
  show ?case
  proof (cases "n < 16")
    case True
    then show ?thesis using "1.prems" by (simp add: to_base_small digit_char_lowhex)
  next
    case False
    have "to_base 16 n = to_base 16 (n div 16) @ [digit_char (n mod 16)]"
      using False by (intro to_base_step) auto
    then show ?thesis using "1.prems" "1.hyps" False by (auto simp: digit_char_lowhex)
  qed
qed

lemma zero_lowhex: "islowhex (CHR ''0'')"
  by (simp add: islowhex_def ord_def)

lemma hex_literal_shape:
  assumes "0 \<le> v"
  shows "\<exists>ds. hex_literal v = CHR ''0'' # CHR ''x'' # ds \<and> ds \<noteq> [] \<and> list_all islowhex ds
              \<and> val_b 16 0 ds = nat v \<and> (v \<le> 255 \<longrightarrow> length ds = 2)"
proof -
  let ?tb = "to_base 16 (nat v)"
  let ?ds = "replicate (2 - length ?tb) (CHR ''0'') @ ?tb"
  have 1: "hex_literal v = CHR ''0'' # CHR ''x'' # ?ds"
    using assms by (simp add: hex_literal_def fmt_int_def Let_def)
  have 2: "?ds \<noteq> []" by (simp add: to_base_nonempty)
  have 3: "list_all islowhex ?ds" by (auto simp: list_all_iff zero_lowhex to_base_lowhex)
  have 4: "val_b 16 0 ?ds = nat v" by (simp add: val_b_zeros val_b_to_base)
  have 5: "v \<le> 255 \<longrightarrow> length ?ds = 2"
  proof
    assume "v \<le> 255"
    then have "nat v < 16 ^ 2" by simp
    then have "length ?tb \<le> 2" by (intro to_base_length) auto
    then show "length ?ds = 2" by simp
  qed
  from 1 2 3 4 5 show ?thesis by blast
qed

lemma reverse_bits_nonneg:
  assumes "0 \<le> v"
  shows "\<exists>r. reverse_bits v = Inr r \<and> 0 \<le> r"
proof -
  let ?p = "pad8 (nat v)"
  have dg: "\<forall>c\<in>set (rev ?p). isdigit_b 2 c"
    by (auto simp: pad8_def isdigit_2_cases dest: to_base_digits[of 2, rotated 2])
  have ne: "rev ?p \<noteq> []" by (simp add: pad8_def to_base_nonempty)
  show ?thesis using py_int_digits[OF dg ne] assms by (simp add: reverse_bits_def fmt_int_2_8)
qed

lemma split_from_Nil: "split_from sep acc [] = [acc]"
  by (subst split_from.simps) simp

lemma split_from_piece:
  "CHR '','' \<notin> set l \<Longrightarrow> split_from '', '' acc l = [acc @ l]"
proof (induction l arbitrary: acc)
  case Nil
  then show ?case by (simp add: split_from_Nil)
next
  case (Cons c l)
  then have "split_from '', '' (acc @ [c]) l = [(acc @ [c]) @ l]" by simp
  moreover have "take 2 (c # l) \<noteq> '', ''" using Cons.prems by (cases l) auto
  ultimately show ?case by (subst split_from.simps) simp
qed

lemma split_from_sep:
  "CHR '','' \<notin> set l \<Longrightarrow>
   split_from '', '' acc (l @ '', '' @ s) = (acc @ l) # split_from '', '' [] s"
proof (induction l arbitrary: acc)
  case Nil
  show ?case by (subst split_from.simps) simp
next
  case (Cons c l)
  then have "split_from '', '' (acc @ [c]) (l @ '', '' @ s) = ((acc @ [c]) @ l) # split_from '', '' [] s"
    by simp
  moreover have "take 2 (c # l @ '', '' @ s) \<noteq> '', ''" using Cons.prems by (cases l) auto
  ultimately show ?case by (subst split_from.simps) simp
qed

lemma split_join:
  assumes "ls \<noteq> []" "\<forall>l\<in>set ls. CHR '','' \<notin> set l"
  shows "split_from '', '' [] (join '', '' ls) = ls"
  using assms
proof (induction "'', ''" ls rule: join.induct)
  case 1
  then show ?case by simp
next
  case (2 x)
  then show ?case by (simp add: split_from_piece)
next
  case (3 x y ys)
  then have "split_from '', '' [] (join '', '' (y # ys)) = y # ys" by simp
  moreover have "CHR '','' \<notin> set x" using 3 by simp
  ultimately show ?case using split_from_sep[of x "[]" "join '', '' (y # ys)"] by simp
qed

lemma wrap_loop: "foldl wrap_step (w, k) ls = (w @ loop_text k ls, k + length ls)"
  by (induction ls arbitrary: w k) (simp_all add: wrap_step_def Let_def)

lemma loop_text_layout:
  "ls \<noteq> [] \<Longrightarrow>
   loop_text k ls = spec_layout k ls @ '', '' @ (if (k + length ls) mod 12 = 0 then [CHR 0x0A] else [])"
proof (induction k ls rule: spec_layout.induct)
  case (1 k)
  then show ?case by simp
next
  case (2 k l)
  then show ?case by simp
next
  case (3 k l y ys)
  then show ?case by simp
qed

lemma strip_by_tail:
  assumes "s \<noteq> []" "\<not> P (hd s)" "\<not> P (last s)" "list_all P t"
  shows "strip_by P (s @ t) = s"
proof -
  have 1: "dropWhile P (s @ t) = s @ t" using assms(1,2) by (cases s) auto
  have "dropWhile P (rev t @ rev s) = dropWhile P (rev s)"
    using assms(4) by (intro dropWhile_append2) (auto simp: list_all_iff)
  moreover have "dropWhile P (rev s) = rev s"
    using assms(1,3) by (cases "rev s") (auto simp: hd_rev)
  ultimately show ?thesis using 1 by (simp add: strip_by_def)
qed

lemma spec_layout_ends:
  assumes "ls \<noteq> []" "\<forall>l\<in>set ls. l \<noteq> []"
  shows "spec_layout k ls \<noteq> [] \<and> hd (spec_layout k ls) = hd (hd ls)
         \<and> last (spec_layout k ls) = last (last ls)"
  using assms
proof (induction k ls rule: spec_layout.induct)
  case (1 k)
  then show ?case by simp
next
  case (2 k l)
  then show ?case by simp
next
  case (3 k l y ys)
  then have "spec_layout (Suc k) (y # ys) \<noteq> []"
    "last (spec_layout (Suc k) (y # ys)) = last (last (y # ys))" by auto
  moreover have "l \<noteq> []" using 3 by simp
  ultimately show ?case by simp
qed

lemma wrap_empty: "wrap [''''] = []"
  by (simp add: wrap_def wrap_step_def strip_chars_def strip_by_def)

lemma wrap_layout:
  assumes "ls \<noteq> []" "\<forall>l\<in>set ls. l \<noteq> [] \<and> \<not> is_sep (hd l) \<and> \<not> is_sep (last l)"
  shows "wrap ls = spec_layout 0 ls"
proof -
  let ?b = "spec_layout 0 ls"
  let ?t = "'', '' @ (if length ls mod 12 = 0 then [CHR 0x0A] else [])"
  have e: "?b \<noteq> []" "hd ?b = hd (hd ls)" "last ?b = last (last ls)"
    using spec_layout_ends[of ls 0] assms by auto
  have h: "\<not> is_sep (hd ?b)" using e(2) assms by (cases ls) auto
  have l: "\<not> is_sep (last ?b)" using e(3) assms by (simp add: last_in_set)
  have t: "list_all is_sep ?t" by (simp add: is_sep_def)
  have "fst (foldl wrap_step ([], 0) ls) = ?b @ ?t"
    using loop_text_layout[OF assms(1), of 0] by (simp add: wrap_loop)
  moreover have "strip_by is_sep (?b @ ?t) = ?b" using e(1) h l t by (rule strip_by_tail)
  moreover have "strip_chars ('', '' @ [CHR 0x0A]) = strip_by is_sep"
    by (rule ext) (simp add: strip_chars_def is_sep_def[abs_def])
  ultimately show ?thesis unfolding wrap_def by simp
qed

lemma map_result_Cons_Inr:
  "map_result f (x # xs) = Inr ys \<longleftrightarrow>
   (\<exists>y ys'. ys = y # ys' \<and> f x = Inr y \<and> map_result f xs = Inr ys')"
  by (auto split: sum.splits)

lemma map_result_Inr: "map_result f xs = Inr ys \<longleftrightarrow> list_all2 (\<lambda>x y. f x = Inr y) xs ys"
proof (induction xs arbitrary: ys)
  case Nil
  then show ?case by auto
next
  case (Cons x xs)
  show ?case unfolding map_result_Cons_Inr list_all2_Cons1 Cons.IH by blast
qed

lemma islowhex_plain: "islowhex c \<Longrightarrow> \<not> is_sep c \<and> c \<noteq> CHR '','' \<and> c \<noteq> CHR ''}''"
  by (auto simp: islowhex_def is_sep_def ord_def)

lemma hex_literal_piece:
  assumes "0 \<le> v"
  shows "hex_literal v \<noteq> [] \<and> \<not> is_sep (hd (hex_literal v)) \<and> \<not> is_sep (last (hex_literal v))
         \<and> CHR '','' \<notin> set (hex_literal v) \<and> CHR ''}'' \<notin> set (hex_literal v)"
proof -
  from hex_literal_shape[OF assms] obtain ds where
    ds: "hex_literal v = CHR ''0'' # CHR ''x'' # ds" "ds \<noteq> []" "list_all islowhex ds" by blast
  have "islowhex (last ds)" using ds(2,3) by (simp add: list_all_iff)
  then have "\<not> is_sep (last (hex_literal v))" using ds(1,2) islowhex_plain by simp
  moreover have "\<not> is_sep (hd (hex_literal v))" using ds(1) by (simp add: is_sep_def)
  moreover have "\<forall>c\<in>set ds. c \<noteq> CHR '','' \<and> c \<noteq> CHR ''}''"
    using ds(3) islowhex_plain by (auto simp: list_all_iff)
  ultimately show ?thesis using ds(1) by auto
qed

lemma replacement_layout:
  assumes "hex_values hex_data = Inr values" "map_result reverse_bits values = Inr nv"
    "\<forall>v\<in>set nv. 0 \<le> v"
  shows "replacement [name, hex_data] = Inr (decl_text name (spec_layout 0 (map hex_literal nv)))"
proof -
  let ?ls = "map hex_literal nv"
  have w: "wrap (split_from '', '' [] (join '', '' ?ls)) = spec_layout 0 ?ls"
  proof (cases "nv = []")
    case True
    then show ?thesis by (simp add: split_from_Nil wrap_empty)
  next
    case False
    then have ne: "?ls \<noteq> []" by simp
    have "\<forall>l\<in>set ?ls. CHR '','' \<notin> set l" using assms(3) hex_literal_piece by auto
    then have "split_from '', '' [] (join '', '' ?ls) = ?ls" by (rule split_join[OF ne])
    moreover have "wrap ?ls = spec_layout 0 ?ls"
      using assms(3) hex_literal_piece by (intro wrap_layout[OF ne]) auto
    ultimately show ?thesis by simp
  qed
  show ?thesis
    unfolding replacement_def decl_text_def
    by (simp add: group_def assms(1,2) split_def w)
qed

section \<open>Totality of a substitution and the shape of a matched call\<close>

lemma map_result_total:
  "\<forall>x\<in>set xs. \<exists>y. f x = Inr y \<and> P y \<Longrightarrow>
   \<exists>ys. map_result f xs = Inr ys \<and> length ys = length xs \<and> (\<forall>y\<in>set ys. P y)"
proof (induction xs)
  case Nil
  then show ?case by simp
next
  case (Cons x xs)
  then obtain y ys where "f x = Inr y" "P y" "map_result f xs = Inr ys" "length ys = length xs"
    "\<forall>y\<in>set ys. P y" by auto
  then show ?case by simp
qed

lemma sub_total:
  assumes "\<And>t gs u. rmatch p t = Some (gs, u) \<Longrightarrow> \<exists>r. f gs = Inr r"
  shows "\<exists>out. sub p f s = Inr out"
proof (induction s rule: length_induct)
  case (1 s)
  show ?case
  proof (cases "rmatch p s")
    case None
    show ?thesis
    proof (cases s)
      case Nil
      with None show ?thesis by (simp add: sub_Nil)
    next
      case (Cons c cs)
      with 1 obtain out where "sub p f cs = Inr out" by auto
      with None Cons show ?thesis by (simp add: sub_skip)
    qed
  next
    case (Some a)
    then obtain gs t where m: "rmatch p s = Some (gs, t)" by (cases a) auto
    from assms[OF m] obtain r where r: "f gs = Inr r" by blast
    show ?thesis
    proof (cases "length t < length s")
      case True
      with 1 obtain out where "sub p f t = Inr out" by auto
      with m r True show ?thesis by (simp add: sub_match)
    next
      case False
      show ?thesis
      proof (cases s)
        case Nil
        with m r False show ?thesis by (subst sub.simps) simp
      next
        case (Cons c cs)
        with 1 obtain out where "sub p f cs = Inr out" by auto
        with m r False Cons show ?thesis by (subst sub.simps) simp
      qed
    qed
  qed
qed

lemma draw_pattern_shape:
  assumes "rmatch draw_pattern s = Some (gs, rest)"
  shows "\<exists>x y bitmap w h a b c d e f g i tr.
     s = ''//'' @ a @ ''display.drawBitmap'' @ b @ ''('' @ c @ x @ '','' @ d @ y @ '',''
           @ e @ bitmap @ '','' @ f @ w @ '','' @ g @ h @ '','' @ i @ tr @ '');'' @ rest
     \<and> gs = [x, y, bitmap, w, h]
     \<and> list_all isspace (a @ b @ c @ d @ e @ f @ g @ i)
     \<and> list_all (\<lambda>k. k \<noteq> CHR '','') (x @ y @ bitmap @ w @ h)
     \<and> x \<noteq> [] \<and> y \<noteq> [] \<and> bitmap \<noteq> [] \<and> w \<noteq> [] \<and> h \<noteq> [] \<and> tr \<noteq> []
     \<and> list_all (\<lambda>k. k \<noteq> CHR '')'') tr"
proof -
  from rmatch_sound[OF assms] obtain ms where
    ms: "list_all2 fits draw_pattern ms" "s = concat ms @ rest" "gs = captures draw_pattern ms"
    by blast
  from ms(1) obtain a b c x d y e bitmap f w g h i tr where
    eq: "ms = [''//'', a, ''display.drawBitmap'', b, ''('', c, x, '','', d, y, '','', e, bitmap, '','',
               f, w, '','', g, h, '','', i, tr, '');'']"
    and sp: "list_all isspace a" "list_all isspace b" "list_all isspace c" "list_all isspace d"
    "list_all isspace e" "list_all isspace f" "list_all isspace g" "list_all isspace i"
    and ne: "x \<noteq> []" "y \<noteq> []" "bitmap \<noteq> []" "w \<noteq> []" "h \<noteq> []" "tr \<noteq> []"
    and nc: "list_all (\<lambda>k. k \<noteq> CHR '','') x" "list_all (\<lambda>k. k \<noteq> CHR '','') y"
    "list_all (\<lambda>k. k \<noteq> CHR '','') bitmap" "list_all (\<lambda>k. k \<noteq> CHR '','') w"
    "list_all (\<lambda>k. k \<noteq> CHR '','') h" "list_all (\<lambda>k. k \<noteq> CHR '')'') tr"
    unfolding draw_pattern_def list_all2_Cons1
    by (clarsimp simp: list_all_iff)
  have 1: "s = ''//'' @ a @ ''display.drawBitmap'' @ b @ ''('' @ c @ x @ '','' @ d @ y @ '',''
           @ e @ bitmap @ '','' @ f @ w @ '','' @ g @ h @ '','' @ i @ tr @ '');'' @ rest"
    unfolding ms(2) eq by simp
  have 2: "gs = [x, y, bitmap, w, h]"
    unfolding ms(3) eq draw_pattern_def by simp
  have 3: "list_all isspace (a @ b @ c @ d @ e @ f @ g @ i)" using sp by simp
  have 4: "list_all (\<lambda>k. k \<noteq> CHR '','') (x @ y @ bitmap @ w @ h)" using nc by simp
  from 1 2 3 4 ne nc(6) show ?thesis by blast
qed

section \<open>The shape of a matched declaration; the passes always return\<close>

lemma pattern_shape:
  assumes "rmatch pattern s = Some (gs, rest)"
  shows "\<exists>name body a b c d e f g.
     s = ''const'' @ a @ ''unsigned'' @ b @ ''char'' @ c @ name @ d @ ''[]'' @ e @ ''PROGMEM''
           @ f @ ''='' @ g @ ''{'' @ body @ ''};'' @ rest
     \<and> gs = [name, body]
     \<and> a \<noteq> [] \<and> b \<noteq> [] \<and> c \<noteq> []
     \<and> list_all isspace (a @ b @ c @ d @ e @ f @ g)
     \<and> name \<noteq> [] \<and> list_all isword name
     \<and> body \<noteq> [] \<and> list_all (\<lambda>k. k \<noteq> CHR ''}'') body"
proof -
  from rmatch_sound[OF assms] obtain ms where
    ms: "list_all2 fits pattern ms" "s = concat ms @ rest" "gs = captures pattern ms"
    by blast
  from ms(1) obtain a b c name d e f g body where
    eq: "ms = [''const'', a, ''unsigned'', b, ''char'', c, name, d, ''[]'', e, ''PROGMEM'', f,
               ''='', g, ''{'', body, ''};'']"
    and sp: "list_all isspace a" "list_all isspace b" "list_all isspace c" "list_all isspace d"
    "list_all isspace e" "list_all isspace f" "list_all isspace g"
    and ne: "a \<noteq> []" "b \<noteq> []" "c \<noteq> []" "name \<noteq> []" "body \<noteq> []"
    and cl: "list_all isword name" "list_all (\<lambda>k. k \<noteq> CHR ''}'') body"
    unfolding pattern_def list_all2_Cons1
    by (clarsimp simp: list_all_iff)
  have 1: "s = ''const'' @ a @ ''unsigned'' @ b @ ''char'' @ c @ name @ d @ ''[]'' @ e @ ''PROGMEM''
           @ f @ ''='' @ g @ ''{'' @ body @ ''};'' @ rest"
    unfolding ms(2) eq by simp
  have 2: "gs = [name, body]"
    unfolding ms(3) eq pattern_def by simp
  have 3: "list_all isspace (a @ b @ c @ d @ e @ f @ g)" using sp by simp
  from 1 2 3 ne cl show ?thesis by blast
qed

lemma hex_values_nonneg: "hex_values s = Inr vs \<Longrightarrow> \<forall>v\<in>set vs. 0 \<le> v"
  by (auto simp: hex_values_total)

lemma reverse_all_nonneg:
  assumes "\<forall>v\<in>set vs. 0 \<le> v"
  shows "\<exists>nv. map_result reverse_bits vs = Inr nv \<and> length nv = length vs \<and> (\<forall>v\<in>set nv. 0 \<le> v)"
  using assms reverse_bits_nonneg by (intro map_result_total) auto

lemma reverse_all_bytes:
  assumes "\<forall>v\<in>set vs. 0 \<le> v \<and> v \<le> 255"
  shows "\<exists>nv. map_result reverse_bits vs = Inr nv \<and> length nv = length vs
              \<and> (\<forall>v\<in>set nv. 0 \<le> v \<and> v \<le> 255)"
proof (rule map_result_total, rule ballI)
  fix x assume "x \<in> set vs"
  with assms have "0 \<le> x" "x \<le> 255" by auto
  from reverse_bits_byte[OF this] show "\<exists>y. reverse_bits x = Inr y \<and> 0 \<le> y \<and> y \<le> 255" by blast
qed

lemma replacement_total:
  "\<exists>nv. replacement [name, hex_data] = Inr (decl_text name (spec_layout 0 (map hex_literal nv)))
        \<and> (\<forall>v\<in>set nv. 0 \<le> v)"
proof -
  obtain vs where vs: "hex_values hex_data = Inr vs" by (simp add: hex_values_total)
  from reverse_all_nonneg[OF hex_values_nonneg[OF vs]] obtain nv where
    nv: "map_result reverse_bits vs = Inr nv" "\<forall>v\<in>set nv. 0 \<le> v" by blast
  from replacement_layout[OF vs nv] nv(2) show ?thesis by blast
qed

lemma array_pass_total: "\<exists>out. array_pass s = Inr out"
  unfolding array_pass_def
proof (rule sub_total)
  fix t gs u assume "rmatch pattern t = Some (gs, u)"
  from pattern_shape[OF this] obtain name body where "gs = [name, body]" by blast
  then show "\<exists>r. replacement gs = Inr r" using replacement_total[of name body] by auto
qed

lemma draw_replacement_eq:
  "draw_replacement [x, y, bitmap, w, h] =
     Inr (''display.setDrawColor(1); display.drawXBMP('' @ strip x @ '', '' @ strip y @ '', ''
            @ strip w @ '', '' @ strip h @ '', '' @ strip bitmap @ '');'')"
  by (simp add: draw_replacement_def group_def)

lemma call_pass_total: "\<exists>out. call_pass s = Inr out"
  unfolding call_pass_def
proof (rule sub_total)
  fix t gs u assume "rmatch draw_pattern t = Some (gs, u)"
  from draw_pattern_shape[OF this] obtain x y bitmap w h where "gs = [x, y, bitmap, w, h]" by blast
  then show "\<exists>r. draw_replacement gs = Inr r" by (simp add: draw_replacement_eq)
qed

section \<open>The array pass: example and layout\<close>

text \<open>
  Claim C2. The array pass on the declaration
  \<^verbatim>\<open>const unsigned char icon[] PROGMEM = {0x01, 0x80};\<close> returns
  \<^verbatim>\<open>const unsigned char icon[] PROGMEM = {0x80, 0x01};\<close>: each byte with its bits
  reversed, the bytes in their order.
\<close>

theorem array_pass_example:
  "array_pass ''const unsigned char icon[] PROGMEM = {0x01, 0x80};''
     = Inr ''const unsigned char icon[] PROGMEM = {0x80, 0x01};''"
  by code_simp

text \<open>
  Claim C3. When the \<open>N\<close> byte values read from the body of a declaration are all from
  0 to 255, the replacement is the declaration whose body is the layout of the
  specification (comma and space between literals, a line break after every 12th
  literal, nothing after the last) of exactly \<open>N\<close> literals, each \<^verbatim>\<open>0x\<close> followed by
  two digits of \<^verbatim>\<open>[0-9a-f]\<close>.
\<close>

theorem replacement_body_layout:
  assumes "hex_values hex_data = Inr values" "\<forall>v\<in>set values. 0 \<le> v \<and> v \<le> 255"
  shows "\<exists>lits. replacement [name, hex_data]
                   = Inr (''const unsigned char '' @ name @ ''[] PROGMEM = {''
                            @ spec_layout 0 lits @ ''};'')
               \<and> length lits = length values
               \<and> (\<forall>l\<in>set lits. \<exists>d1 d2. l = [CHR ''0'', CHR ''x'', d1, d2]
                                           \<and> islowhex d1 \<and> islowhex d2)"
proof -
  from reverse_all_bytes[OF assms(2)] obtain nv where
    nv: "map_result reverse_bits values = Inr nv" "length nv = length values"
    "\<forall>v\<in>set nv. 0 \<le> v \<and> v \<le> 255" by blast
  let ?lits = "map hex_literal nv"
  have "replacement [name, hex_data] = Inr (decl_text name (spec_layout 0 ?lits))"
    using nv(3) by (intro replacement_layout[OF assms(1) nv(1)]) auto
  moreover have "\<forall>l\<in>set ?lits. \<exists>d1 d2. l = [CHR ''0'', CHR ''x'', d1, d2] \<and> islowhex d1 \<and> islowhex d2"
  proof
    fix l assume "l \<in> set ?lits"
    then obtain v where v: "l = hex_literal v" "0 \<le> v" "v \<le> 255" using nv(3) by auto
    from hex_literal_shape[OF v(2)] v(3) obtain ds where
      ds: "hex_literal v = CHR ''0'' # CHR ''x'' # ds" "list_all islowhex ds" "length ds = 2"
      by blast
    from ds(3) obtain d1 d2 where "ds = [d1, d2]"
      by (cases ds; cases "tl ds") auto
    with ds v(1) show "\<exists>d1 d2. l = [CHR ''0'', CHR ''x'', d1, d2] \<and> islowhex d1 \<and> islowhex d2"
      by simp
  qed
  ultimately show ?thesis using nv(2) unfolding decl_text_def
    by (intro exI[of _ ?lits]) simp
qed

theorem replacement_body_layout_witness:
  "\<exists>lits. replacement [''icon'', ''0x01, 0x80'']
            = Inr (''const unsigned char '' @ ''icon'' @ ''[] PROGMEM = {''
                     @ spec_layout 0 lits @ ''};'')
        \<and> length lits = length [1, 128 :: int]
        \<and> (\<forall>l\<in>set lits. \<exists>d1 d2. l = [CHR ''0'', CHR ''x'', d1, d2]
                                    \<and> islowhex d1 \<and> islowhex d2)"
proof -
  have h: "hex_values ''0x01, 0x80'' = Inr [1, 128]" by code_simp
  have b: "\<forall>v\<in>set [1, 128 :: int]. 0 \<le> v \<and> v \<le> 255" by simp
  show ?thesis by (rule replacement_body_layout[OF h b])
qed

section \<open>The call pass and the pipeline\<close>

text \<open>
  Claim C6. A buffer in which no match of the declaration pattern and no match of the
  call pattern starts at any position comes out of the pipeline unchanged.
\<close>

theorem process_unchanged:
  assumes "no_match pattern s" "no_match draw_pattern s"
  shows "process s = Inr s"
  using assms by (simp add: process_def array_pass_def call_pass_def sub_no_match)

theorem process_unchanged_witness:
  "process ''int x = 0; // no icons here'' = Inr ''int x = 0; // no icons here''"
proof -
  have a: "no_match pattern ''int x = 0; // no icons here''" by code_simp
  have b: "no_match draw_pattern ''int x = 0; // no icons here''" by code_simp
  show ?thesis by (rule process_unchanged[OF a b])
qed

text \<open>
  Claim C7 does not hold for every buffer. A captured fragment is copied as it is: the
  first pass below moves \<^verbatim>\<open>//display.drawBitmap(a\<close> into its output, where, with the text
  after the match, it starts a call the second pass rewrites.
\<close>

theorem call_pass_twice_counterexample:
  "call_pass ''//display.drawBitmap(//display.drawBitmap(a,b,c,d,e,f);,g);''
     = Inr ''display.setDrawColor(1); display.drawXBMP(//display.drawBitmap(a, b, d, e, c);,g);''
   \<and> call_pass ''display.setDrawColor(1); display.drawXBMP(//display.drawBitmap(a, b, d, e, c);,g);''
     = Inr ''display.setDrawColor(1); display.drawXBMP(display.setDrawColor(1); display.drawXBMP(a, b, e, c);, d);''
   \<and> call_pass ''display.setDrawColor(1); display.drawXBMP(//display.drawBitmap(a, b, d, e, c);,g);''
     \<noteq> Inr ''display.setDrawColor(1); display.drawXBMP(//display.drawBitmap(a, b, d, e, c);,g);''"
  by code_simp

section \<open>Matching an emitted declaration again\<close>

lemma splits_first: "fits r m \<Longrightarrow> stops r t \<Longrightarrow> \<exists>rest. splits r (m @ t) = (m, t) # rest"
proof (induction r)
  case (Lit l)
  then show ?case by simp
next
  case (Star c)
  then show ?case using splits_Star_greedy[of c m t] by simp
next
  case (Plus c)
  then show ?case using splits_Plus_greedy[of m c t] by simp
next
  case (Group r)
  then show ?case by simp
qed

lemma rmatch_tight: "tight rs ms u \<Longrightarrow> rmatch rs (concat ms @ u) = Some (captures rs ms, u)"
proof (induction rs ms u rule: tight.induct)
  case (1 u)
  then show ?case by simp
next
  case (2 r rs m ms u)
  then have ih: "rmatch rs (concat ms @ u) = Some (captures rs ms, u)" by simp
  from 2 obtain rest where "splits r (m @ concat ms @ u) = (m, concat ms @ u) # rest"
    using splits_first[of r m "concat ms @ u"] by auto
  from rmatch_first[OF this ih] show ?case by simp
qed simp_all

lemma isword_plain:
  "isword c \<Longrightarrow> \<not> isspace c \<and> c \<noteq> CHR ''['' \<and> c \<noteq> CHR ''{'' \<and> c \<noteq> CHR ''}''"
  by (auto simp: isword_def isalnum_def isspace_def ord_def)

lemma isspace_plain: "isspace c \<Longrightarrow> c \<noteq> CHR ''{'' \<and> c \<noteq> CHR ''}''"
  by (auto simp: isspace_def ord_def)

lemma rematch_decl:
  assumes "name \<noteq> []" "list_all isword name" "body \<noteq> []" "list_all (\<lambda>k. k \<noteq> CHR ''}'') body"
  shows "rmatch pattern (decl_text name body) = Some ([name, body], [])"
proof -
  let ?ms = "[''const'', '' '', ''unsigned'', '' '', ''char'', '' '', name, [], ''[]'', '' '',
              ''PROGMEM'', '' '', ''='', '' '', ''{'', body, ''};'']"
  have w: "isword (hd name)" using assms(1,2) by (cases name) auto
  have sp: "isspace (CHR '' '')" by (simp add: isspace_def ord_def)
  have ns: "\<not> isspace (CHR ''u'')" "\<not> isspace (CHR ''c'')" "\<not> isspace (CHR ''['')"
    "\<not> isspace (CHR ''P'')" "\<not> isspace (CHR ''='')" "\<not> isspace (CHR ''{'')"
    "\<not> isword (CHR ''['')"
    by (simp_all add: isspace_def isword_def isalnum_def ord_def)
  have "tight pattern ?ms []"
    unfolding pattern_def using assms w isword_plain[OF w] sp ns by (simp add: list_all_iff)
  from rmatch_tight[OF this] show ?thesis
    unfolding decl_text_def by (simp add: pattern_def)
qed

section \<open>Reading a laid-out body back\<close>

lemma rmatch_hex_sep: "is_sep c \<Longrightarrow> rmatch hex_pattern (c # t) = None"
  by (rule rmatch_hex_None) (auto simp: is_sep_def)

lemma findall_hex_sep: "is_sep c \<Longrightarrow> findall hex_pattern (c # t) = findall hex_pattern t"
  by (simp add: findall_skip rmatch_hex_sep)

lemma findall_hex_token:
  assumes "ds \<noteq> []" "list_all ishex ds" "t = [] \<or> \<not> ishex (hd t)"
  shows "findall hex_pattern (CHR ''0'' # CHR ''x'' # ds @ t) = (CHR ''0'' # CHR ''x'' # ds) # findall hex_pattern t"
proof -
  have m: "rmatch hex_pattern (CHR ''0'' # CHR ''x'' # ds @ t) = Some ([], t)"
    using rmatch_hex_Some[OF assms] by simp
  show ?thesis by (subst findall_match[OF m]) simp_all
qed

lemma findall_hex_Nil: "findall hex_pattern [] = []"
  by (rule findall_Nil) (rule rmatch_hex_None, simp)

lemma sep_not_hex: "is_sep c \<Longrightarrow> \<not> ishex c"
  by (auto simp: is_sep_def ishex_def ord_def)

lemma findall_layout:
  assumes "\<forall>l\<in>set ls. \<exists>ds. l = CHR ''0'' # CHR ''x'' # ds \<and> ds \<noteq> [] \<and> list_all ishex ds"
  shows "findall hex_pattern (spec_layout k ls) = ls"
  using assms
proof (induction k ls rule: spec_layout.induct)
  case (1 k)
  show ?case by (simp add: findall_hex_Nil)
next
  case (2 k l)
  then obtain ds where ds: "l = CHR ''0'' # CHR ''x'' # ds" "ds \<noteq> []" "list_all ishex ds" by auto
  from findall_hex_token[OF ds(2,3), of "[]"] ds(1) show ?case by (simp add: findall_hex_Nil)
next
  case (3 k l y ys)
  then obtain ds where ds: "l = CHR ''0'' # CHR ''x'' # ds" "ds \<noteq> []" "list_all ishex ds" by auto
  have ih: "findall hex_pattern (spec_layout (Suc k) (y # ys)) = y # ys" using 3 by simp
  let ?t = "'', '' @ (if Suc k mod 12 = 0 then [CHR 0x0A] else []) @ spec_layout (Suc k) (y # ys)"
  have s: "is_sep (CHR '','')" "is_sep (CHR '' '')" "is_sep (CHR 0x0A)" by (simp_all add: is_sep_def)
  have "\<not> ishex (hd ?t)" using sep_not_hex[OF s(1)] by simp
  then have "findall hex_pattern (CHR ''0'' # CHR ''x'' # ds @ ?t) = l # findall hex_pattern ?t"
    using findall_hex_token[OF ds(2,3), of ?t] ds(1) by simp
  moreover have "findall hex_pattern ?t = y # ys"
    using ih s by (simp add: findall_hex_sep)
  ultimately show ?case using ds(1) by simp
qed

lemma hex_values_layout:
  assumes "\<forall>v\<in>set vs. 0 \<le> v"
  shows "hex_values (spec_layout k (map hex_literal vs)) = Inr vs"
proof -
  let ?ls = "map hex_literal vs"
  have sh: "\<forall>l\<in>set ?ls. \<exists>ds. l = CHR ''0'' # CHR ''x'' # ds \<and> ds \<noteq> [] \<and> list_all ishex ds"
  proof
    fix l assume "l \<in> set ?ls"
    then obtain v where "l = hex_literal v" "0 \<le> v" using assms by auto
    with hex_literal_shape[of v] obtain ds where
      "l = CHR ''0'' # CHR ''x'' # ds" "ds \<noteq> []" "list_all islowhex ds" by auto
    then show "\<exists>ds. l = CHR ''0'' # CHR ''x'' # ds \<and> ds \<noteq> [] \<and> list_all ishex ds"
      using islowhex_ishex by (auto simp: list_all_iff)
  qed
  have "map (\<lambda>t. int (val_b 16 0 (drop 2 t))) ?ls = vs"
    using assms
  proof (induction vs)
    case Nil
    then show ?case by simp
  next
    case (Cons v vs)
    then have "0 \<le> v" by simp
    from hex_literal_shape[OF this] obtain ds where
      "hex_literal v = CHR ''0'' # CHR ''x'' # ds" "val_b 16 0 ds = nat v" by blast
    then have "int (val_b 16 0 (drop 2 (hex_literal v))) = v" using \<open>0 \<le> v\<close> by simp
    then show ?case using Cons by simp
  qed
  then show ?thesis by (simp add: hex_values_total findall_layout[OF sh])
qed

section \<open>An emitted declaration with an empty body\<close>

lemma no_match_drop: "(\<And>n. rmatch p (drop n s) = None) \<Longrightarrow> no_match p s"
proof (induction s)
  case Nil
  from Nil[of 0] show ?case by simp
next
  case (Cons c cs)
  have "rmatch p (c # cs) = None" using Cons.prems[of 0] by simp
  moreover have "no_match p cs"
  proof (rule Cons.IH)
    fix n show "rmatch p (drop n cs) = None" using Cons.prems[of "Suc n"] by simp
  qed
  ultimately show ?case by simp
qed

lemma dropWhile_until: "\<forall>k\<in>set A. k \<noteq> x \<Longrightarrow> dropWhile (\<lambda>k. k \<noteq> x) (A @ x # zs) = x # zs"
  by (induction A) auto

lemma dropWhile_skip:
  "\<forall>k\<in>set A. k \<noteq> x \<Longrightarrow> dropWhile (\<lambda>k. k \<noteq> x) (A @ B) = dropWhile (\<lambda>k. k \<noteq> x) B"
  by (induction A) auto

lemma match_brace:
  assumes "rmatch pattern t = Some (gs, u)"
  shows "\<exists>zs. dropWhile (\<lambda>k. k \<noteq> CHR ''{'') t = CHR ''{'' # zs \<and> zs \<noteq> [] \<and> hd zs \<noteq> CHR ''}''"
proof -
  from pattern_shape[OF assms] obtain name body a b c d e f g where
    t: "t = ''const'' @ a @ ''unsigned'' @ b @ ''char'' @ c @ name @ d @ ''[]'' @ e @ ''PROGMEM''
           @ f @ ''='' @ g @ ''{'' @ body @ ''};'' @ u"
    and sp: "list_all isspace (a @ b @ c @ d @ e @ f @ g)"
    and nm: "list_all isword name"
    and bd: "body \<noteq> []" "list_all (\<lambda>k. k \<noteq> CHR ''}'') body"
    by blast
  let ?A = "''const'' @ a @ ''unsigned'' @ b @ ''char'' @ c @ name @ d @ ''[]'' @ e @ ''PROGMEM''
           @ f @ ''='' @ g"
  let ?zs = "body @ ''};'' @ u"
  have A: "\<forall>k\<in>set ?A. k \<noteq> CHR ''{''"
    using sp nm isspace_plain isword_plain by (auto simp: list_all_iff)
  have teq: "t = ?A @ CHR ''{'' # ?zs" unfolding t by simp
  have "dropWhile (\<lambda>k. k \<noteq> CHR ''{'') t = CHR ''{'' # ?zs"
    by (subst teq) (rule dropWhile_until[OF A])
  moreover have "?zs \<noteq> []" "hd ?zs \<noteq> CHR ''}''" using bd by (cases body; simp)+
  ultimately show ?thesis by blast
qed

lemma closed_brace:
  assumes "\<forall>k\<in>set P. k \<noteq> CHR ''{''"
    "dropWhile (\<lambda>k. k \<noteq> CHR ''{'') (drop n (P @ ''{};'')) = CHR ''{'' # zs"
  shows "zs = ''};''"
proof (cases "n \<le> length P")
  case True
  then have dn: "drop n (P @ ''{};'') = drop n P @ CHR ''{'' # ''};''" by simp
  have "\<forall>k\<in>set (drop n P). k \<noteq> CHR ''{''" using assms(1) by (meson in_set_dropD)
  then have "dropWhile (\<lambda>k. k \<noteq> CHR ''{'') (drop n (P @ ''{};'')) = CHR ''{'' # ''};''"
    by (subst dn) (rule dropWhile_until)
  with assms(2) show ?thesis by simp
next
  case False
  then obtain j where j: "n - length P = Suc j" by (cases "n - length P") auto
  have "drop n (P @ ''{};'') = drop (n - length P) ''{};''" using False by simp
  also have "\<dots> = drop j ''};''" unfolding j by simp
  finally have "set (drop n (P @ ''{};'')) \<subseteq> set ''};''"
    using set_drop_subset[of j "''};''"] by simp
  then have "\<forall>k\<in>set (drop n (P @ ''{};'')). k \<noteq> CHR ''{''" by auto
  then have "dropWhile (\<lambda>k. k \<noteq> CHR ''{'') (drop n (P @ ''{};'')) = []" by simp
  with assms(2) show ?thesis by simp
qed

lemma empty_decl_no_match:
  assumes "list_all isword name"
  shows "no_match pattern (decl_text name [])"
proof (rule no_match_drop)
  fix n
  define P where "P = ''const unsigned char '' @ name @ ''[] PROGMEM = ''"
  have d: "decl_text name [] = P @ ''{};''" by (simp add: decl_text_def P_def)
  have P: "\<forall>k\<in>set P. k \<noteq> CHR ''{''"
    using assms isword_plain by (auto simp: list_all_iff P_def)
  show "rmatch pattern (drop n (decl_text name [])) = None"
  proof (rule ccontr)
    assume "rmatch pattern (drop n (decl_text name [])) \<noteq> None"
    then obtain gs u where "rmatch pattern (drop n (P @ ''{};'')) = Some (gs, u)"
      unfolding d by auto
    from match_brace[OF this] obtain zs where
      zs: "dropWhile (\<lambda>k. k \<noteq> CHR ''{'') (drop n (P @ ''{};'')) = CHR ''{'' # zs"
      "zs \<noteq> []" "hd zs \<noteq> CHR ''}''"
      by blast
    from closed_brace[OF P zs(1)] zs(3) show False by simp
  qed
qed

section \<open>Running the array pass twice\<close>

lemma rmatch_pattern_Nil: "rmatch pattern [] = None"
  using pattern_start[of "[]"] by (cases "rmatch pattern []") auto

lemma array_pass_whole:
  assumes "rmatch pattern d = Some (gs, [])" "replacement gs = Inr r"
  shows "array_pass d = Inr r"
  using sub_match[OF assms(1) pattern_consumes[OF assms(1)], of replacement r] assms(2)
  by (simp add: array_pass_def sub_Nil rmatch_pattern_Nil)

lemma reverse_all_back:
  assumes "map_result reverse_bits vs = Inr nv" "\<forall>v\<in>set vs. 0 \<le> v \<and> v \<le> 255"
  shows "map_result reverse_bits nv = Inr vs"
proof -
  from assms(1) have "list_all2 (\<lambda>x y. reverse_bits x = Inr y) vs nv" by (simp add: map_result_Inr)
  then have "list_all2 (\<lambda>x y. reverse_bits x = Inr y) nv vs" using assms(2)
  proof (induction rule: list_all2_induct)
    case Nil
    then show ?case by simp
  next
    case (Cons x xs y ys)
    then have "0 \<le> x" "x \<le> 255" by auto
    from reverse_bits_byte[OF this] Cons.hyps(1) have "reverse_bits y = Inr x" by auto
    with Cons show ?case by simp
  qed
  then show ?thesis by (simp add: map_result_Inr)
qed

lemma spec_layout_set:
  "c \<in> set (spec_layout k ls) \<Longrightarrow> is_sep c \<or> (\<exists>l\<in>set ls. c \<in> set l)"
  by (induction k ls rule: spec_layout.induct) (auto simp: is_sep_def split: if_splits)

lemma layout_no_brace:
  assumes "\<forall>v\<in>set vs. 0 \<le> v"
  shows "list_all (\<lambda>k. k \<noteq> CHR ''}'') (spec_layout j (map hex_literal vs))"
proof -
  have "c \<noteq> CHR ''}''" if "c \<in> set (spec_layout j (map hex_literal vs))" for c
  proof -
    from spec_layout_set[OF that] show ?thesis
    proof
      assume "is_sep c" then show ?thesis by (auto simp: is_sep_def)
    next
      assume "\<exists>l\<in>set (map hex_literal vs). c \<in> set l"
      then obtain v where "v \<in> set vs" "c \<in> set (hex_literal v)" by auto
      with assms hex_literal_piece[of v] show ?thesis by auto
    qed
  qed
  then show ?thesis by (auto simp: list_all_iff)
qed

text \<open>
  Claim C8. For a declaration the pattern matches as a whole, whose byte tokens all
  denote values from 0 to 255, the array pass applied to the output of the array pass
  returns a declaration of the same name whose byte tokens denote the original values,
  in their order.
\<close>

theorem array_pass_twice:
  assumes "rmatch pattern d = Some ([name, hex_data], [])"
    "hex_values hex_data = Inr values" "\<forall>v\<in>set values. 0 \<le> v \<and> v \<le> 255"
  shows "\<exists>d1 body2. array_pass d = Inr d1
           \<and> array_pass d1 = Inr (''const unsigned char '' @ name @ ''[] PROGMEM = {'' @ body2 @ ''};'')
           \<and> hex_values body2 = Inr values"
proof -
  from reverse_all_bytes[OF assms(3)] obtain nv where
    nv: "map_result reverse_bits values = Inr nv" "length nv = length values"
    "\<forall>v\<in>set nv. 0 \<le> v \<and> v \<le> 255" by blast
  have nvp: "\<forall>v\<in>set nv. 0 \<le> v" and vp: "\<forall>v\<in>set values. 0 \<le> v" using nv(3) assms(3) by auto
  let ?L1 = "spec_layout 0 (map hex_literal nv)"
  let ?L2 = "spec_layout 0 (map hex_literal values)"
  have r1: "replacement [name, hex_data] = Inr (decl_text name ?L1)"
    by (rule replacement_layout[OF assms(2) nv(1) nvp])
  have p1: "array_pass d = Inr (decl_text name ?L1)" by (rule array_pass_whole[OF assms(1) r1])
  from pattern_shape[OF assms(1)] have nm: "name \<noteq> []" "list_all isword name" by auto
  have h2: "hex_values ?L2 = Inr values" by (rule hex_values_layout[OF vp])
  have p2: "array_pass (decl_text name ?L1) = Inr (decl_text name ?L2)"
  proof (cases "values = []")
    case True
    with nv(2) have "nv = []" by simp
    with True show ?thesis
      using empty_decl_no_match[OF nm(2)] by (simp add: array_pass_def sub_no_match)
  next
    case False
    with nv(2) have "map hex_literal nv \<noteq> []" by auto
    moreover have "\<forall>l\<in>set (map hex_literal nv). l \<noteq> []" using nvp hex_literal_piece by auto
    ultimately have ne: "?L1 \<noteq> []" using spec_layout_ends[of "map hex_literal nv" 0] by blast
    have m: "rmatch pattern (decl_text name ?L1) = Some ([name, ?L1], [])"
      by (rule rematch_decl[OF nm ne layout_no_brace[OF nvp]])
    have "replacement [name, ?L1] = Inr (decl_text name ?L2)"
      by (rule replacement_layout[OF hex_values_layout[OF nvp] reverse_all_back[OF nv(1) assms(3)] vp])
    from array_pass_whole[OF m this] show ?thesis .
  qed
  from p1 p2 h2 show ?thesis unfolding decl_text_def by blast
qed

theorem array_pass_twice_witness:
  "\<exists>d1 body2. array_pass ''const unsigned char icon[] PROGMEM = {0x01, 0x80};'' = Inr d1
           \<and> array_pass d1 = Inr (''const unsigned char '' @ ''icon'' @ ''[] PROGMEM = {'' @ body2 @ ''};'')
           \<and> hex_values body2 = Inr [1, 128]"
proof -
  have m: "rmatch pattern ''const unsigned char icon[] PROGMEM = {0x01, 0x80};''
             = Some ([''icon'', ''0x01, 0x80''], [])" by code_simp
  have h: "hex_values ''0x01, 0x80'' = Inr [1, 128]" by code_simp
  have b: "\<forall>v\<in>set [1, 128 :: int]. 0 \<le> v \<and> v \<le> 255" by simp
  show ?thesis by (rule array_pass_twice[OF m h b])
qed

section \<open>The frame of a declaration and the tokens of its body\<close>

text \<open>
  Claim C9 does not hold for the spacing: two spaces after \<^verbatim>\<open>const\<close>, a space before
  \<^verbatim>\<open>[]\<close> and no space around \<^verbatim>\<open>=\<close> come out as the fixed layout.
\<close>

theorem declaration_spacing_counterexample:
  "array_pass ''const  unsigned char icon [] PROGMEM={0x01};''
     = Inr ''const unsigned char icon[] PROGMEM = {0x80};''"
  by code_simp

text \<open>
  Claim C9, as amended. A matched declaration is the keywords \<^verbatim>\<open>const\<close>, \<^verbatim>\<open>unsigned\<close>,
  \<^verbatim>\<open>char\<close>, the name, \<^verbatim>\<open>[]\<close>, \<^verbatim>\<open>PROGMEM\<close>, \<^verbatim>\<open>=\<close> and the braces around the body, with
  white space between them. The array pass replaces it by
  \<^verbatim>\<open>const unsigned char <name>[] PROGMEM = {<body>};\<close> with the same name, copied as it
  is, and the keywords in one fixed layout with single spaces, whatever the white space
  of the input was; it goes on with the text after the match.
\<close>

theorem declaration_frame:
  assumes "rmatch pattern s = Some (gs, rest)"
  shows "\<exists>name body a b c d e f g body' out.
     s = ''const'' @ a @ ''unsigned'' @ b @ ''char'' @ c @ name @ d @ ''[]'' @ e @ ''PROGMEM''
           @ f @ ''='' @ g @ ''{'' @ body @ ''};'' @ rest
     \<and> list_all isspace (a @ b @ c @ d @ e @ f @ g)
     \<and> gs = [name, body]
     \<and> array_pass rest = Inr out
     \<and> list_all (\<lambda>k. k \<noteq> CHR ''}'') body'
     \<and> array_pass s = Inr (''const unsigned char '' @ name @ ''[] PROGMEM = {'' @ body' @ ''};''
                              @ out)"
proof -
  from pattern_shape[OF assms] obtain name body a b c d e f g where
    sh: "s = ''const'' @ a @ ''unsigned'' @ b @ ''char'' @ c @ name @ d @ ''[]'' @ e @ ''PROGMEM''
           @ f @ ''='' @ g @ ''{'' @ body @ ''};'' @ rest"
    "gs = [name, body]" "list_all isspace (a @ b @ c @ d @ e @ f @ g)"
    by blast
  from replacement_total[of name body] obtain nv where
    r: "replacement [name, body] = Inr (decl_text name (spec_layout 0 (map hex_literal nv)))"
    and nv: "\<forall>v\<in>set nv. 0 \<le> v"
    by blast
  note nb = layout_no_brace[OF nv, of 0]
  obtain out where out: "array_pass rest = Inr out" using array_pass_total by blast
  have "array_pass s = Inr (decl_text name (spec_layout 0 (map hex_literal nv)) @ out)"
    using sub_match[OF assms pattern_consumes[OF assms], of replacement] r out sh(2)
    unfolding array_pass_def by simp
  then have "array_pass s = Inr (''const unsigned char '' @ name @ ''[] PROGMEM = {''
               @ spec_layout 0 (map hex_literal nv) @ ''};'' @ out)"
    by (simp add: decl_text_def)
  with sh out nb show ?thesis by blast
qed

theorem declaration_frame_witness:
  "\<exists>name body a b c d e f g body' out.
     ''const  unsigned char icon [] PROGMEM={0x01};''
       = ''const'' @ a @ ''unsigned'' @ b @ ''char'' @ c @ name @ d @ ''[]'' @ e @ ''PROGMEM''
           @ f @ ''='' @ g @ ''{'' @ body @ ''};'' @ []
     \<and> list_all isspace (a @ b @ c @ d @ e @ f @ g)
     \<and> [''icon'', ''0x01''] = [name, body]
     \<and> array_pass [] = Inr out
     \<and> list_all (\<lambda>k. k \<noteq> CHR ''}'') body'
     \<and> array_pass ''const  unsigned char icon [] PROGMEM={0x01};''
         = Inr (''const unsigned char '' @ name @ ''[] PROGMEM = {'' @ body' @ ''};'' @ out)"
proof -
  have m: "rmatch pattern ''const  unsigned char icon [] PROGMEM={0x01};''
             = Some ([''icon'', ''0x01''], [])" by code_simp
  show ?thesis by (rule declaration_frame[OF m])
qed

text \<open>
  Claim C4 does not hold for the shape of the tokens: a run of three digits is one value,
  and a run inside an identifier or after a decimal digit is a value too.
\<close>

theorem hex_tokens_counterexample:
  "hex_values ''0x123, foo0x1f, 100x2'' = Inr [291, 31, 2]"
  by code_simp

text \<open>
  Claim C4, as amended. The byte values of a declaration body are read from the runs of
  \<^verbatim>\<open>0x\<close> followed by one or more hexadecimal digits, each run as long as possible, found
  from left to right wherever one starts, also inside a longer token or with more than two
  digits. A character where no such run starts contributes nothing. Reading the values
  never raises, and the array pass returns a text for every buffer.
\<close>

theorem hex_values_runs:
  "hex_values [] = Inr []
   \<and> (\<forall>ds t. ds \<noteq> [] \<and> list_all ishex ds \<and> (t = [] \<or> \<not> ishex (hd t)) \<longrightarrow>
        (\<exists>vs. hex_values t = Inr vs
             \<and> hex_values (''0x'' @ ds @ t) = Inr (int (val_b 16 0 ds) # vs)))
   \<and> (\<forall>c s. \<not> (\<exists>d u. c # s = ''0x'' @ d # u \<and> ishex d) \<longrightarrow> hex_values (c # s) = hex_values s)
   \<and> (\<forall>content. \<exists>out. array_pass content = Inr out)"
proof (intro conjI allI impI)
  show "hex_values [] = Inr []" by (simp add: hex_values_total findall_hex_Nil)
next
  fix ds t assume a: "ds \<noteq> [] \<and> list_all ishex ds \<and> (t = [] \<or> \<not> ishex (hd t))"
  then have "findall hex_pattern (CHR ''0'' # CHR ''x'' # ds @ t)
               = (CHR ''0'' # CHR ''x'' # ds) # findall hex_pattern t"
    by (intro findall_hex_token) auto
  then show "\<exists>vs. hex_values t = Inr vs \<and> hex_values (''0x'' @ ds @ t) = Inr (int (val_b 16 0 ds) # vs)"
    by (simp add: hex_values_total)
next
  fix c s assume "\<not> (\<exists>d u. c # s = ''0x'' @ d # u \<and> ishex d)"
  then have "rmatch hex_pattern (c # s) = None" by (rule rmatch_hex_None)
  then show "hex_values (c # s) = hex_values s" by (simp add: hex_values_total findall_skip)
next
  fix content show "\<exists>out. array_pass content = Inr out" by (rule array_pass_total)
qed

theorem hex_values_runs_witness: "hex_values ''10 0xAB'' = Inr [171]"
proof -
  have skip: "\<not> (\<exists>d u. c # s = ''0x'' @ d # u \<and> ishex d) \<Longrightarrow> hex_values (c # s) = hex_values s"
    for c s using hex_values_runs by blast
  have tok: "ds \<noteq> [] \<Longrightarrow> list_all ishex ds \<Longrightarrow> t = [] \<or> \<not> ishex (hd t) \<Longrightarrow>
      \<exists>vs. hex_values t = Inr vs \<and> hex_values (''0x'' @ ds @ t) = Inr (int (val_b 16 0 ds) # vs)"
    for ds t using hex_values_runs by blast
  have e: "hex_values [] = Inr []" using hex_values_runs by blast
  have "hex_values ''10 0xAB'' = hex_values ''0 0xAB''" by (rule skip) simp
  also have "\<dots> = hex_values '' 0xAB''" by (rule skip) simp
  also have "\<dots> = hex_values ''0xAB''" by (rule skip) simp
  also have "\<dots> = Inr [int (val_b 16 0 ''AB'')]"
    using tok[of "''AB''" "[]"] e by (simp add: ishex_def ord_def)
  also have "val_b 16 0 ''AB'' = 171" by (simp add: val_b_def digit_of_def ord_def)
  finally show ?thesis by simp
qed

section \<open>The case of the hexadecimal digits\<close>

lemma ord_lower_hex: "ord (lower_hex c) = (if 65 \<le> ord c \<and> ord c \<le> 70 then ord c + 32 else ord c)"
  by (simp add: lower_hex_def ord_char_of)

lemma ishex_lower: "ishex (lower_hex c) = ishex c"
  by (auto simp: ishex_def ord_lower_hex)

lemma digit_of_lower: "digit_of (lower_hex c) = digit_of c"
  by (auto simp: digit_of_def ord_lower_hex)

lemma lower_hex_0x:
  "lower_hex c = CHR ''0'' \<longleftrightarrow> c = CHR ''0''" "lower_hex c = CHR ''x'' \<longleftrightarrow> c = CHR ''x''"
proof -
  have "ord (lower_hex c) = 48 \<longleftrightarrow> ord c = 48" "ord (lower_hex c) = 120 \<longleftrightarrow> ord c = 120"
    by (auto simp: ord_lower_hex)
  moreover have "ord (CHR ''0'') = 48" "ord (CHR ''x'') = 120" by (simp_all add: ord_def)
  ultimately show "lower_hex c = CHR ''0'' \<longleftrightarrow> c = CHR ''0''"
    "lower_hex c = CHR ''x'' \<longleftrightarrow> c = CHR ''x''"
    by (metis ord_inj)+
qed

lemma rmatch_hex_eq:
  "rmatch hex_pattern s =
     (case s of
        c0 # c1 # r \<Rightarrow> if c0 = CHR ''0'' \<and> c1 = CHR ''x'' \<and> r \<noteq> [] \<and> ishex (hd r)
                        then Some ([], dropWhile ishex r) else None
      | _ \<Rightarrow> None)"
proof (cases "\<exists>r. s = CHR ''0'' # CHR ''x'' # r \<and> r \<noteq> [] \<and> ishex (hd r)")
  case True
  then obtain r where r: "s = CHR ''0'' # CHR ''x'' # r" "r \<noteq> []" "ishex (hd r)" by blast
  let ?ds = "takeWhile ishex r" and ?t = "dropWhile ishex r"
  have ds: "?ds \<noteq> []" using r(2,3) by (cases r) auto
  have "list_all ishex ?ds" by (auto simp: list_all_iff dest: set_takeWhileD)
  moreover have "?t = [] \<or> \<not> ishex (hd ?t)" using hd_dropWhile[of ishex r] by blast
  ultimately have "rmatch hex_pattern (''0x'' @ ?ds @ ?t) = Some ([], ?t)"
    using ds by (intro rmatch_hex_Some)
  then show ?thesis using r by simp
next
  case False
  then have "\<not> (\<exists>c u. s = ''0x'' @ c # u \<and> ishex c)" by auto
  from rmatch_hex_None[OF this] False show ?thesis
    by (auto split: list.splits)
qed

lemma rmatch_hex_lower:
  "rmatch hex_pattern (map lower_hex s) =
     (case rmatch hex_pattern s of None \<Rightarrow> None | Some (gs, t) \<Rightarrow> Some (gs, map lower_hex t))"
proof -
  have "dropWhile ishex (map lower_hex r) = map lower_hex (dropWhile ishex r)" for r
    by (simp add: dropWhile_map comp_def ishex_lower)
  moreover have "ishex (hd (map lower_hex r)) = ishex (hd r)" if "r \<noteq> []" for r
    using that by (cases r) (auto simp: ishex_lower)
  ultimately show ?thesis
    unfolding rmatch_hex_eq[of s] rmatch_hex_eq[of "map lower_hex s"]
    by (auto split: list.splits simp: lower_hex_0x)
qed

lemma findall_hex_lower:
  "findall hex_pattern (map lower_hex s) = map (map lower_hex) (findall hex_pattern s)"
proof (induction s rule: length_induct)
  case (1 s)
  show ?case
  proof (cases "rmatch hex_pattern s")
    case None
    then have n: "rmatch hex_pattern (map lower_hex s) = None" by (simp add: rmatch_hex_lower)
    show ?thesis
    proof (cases s)
      case Nil
      then show ?thesis by (simp add: findall_hex_Nil)
    next
      case (Cons c cs)
      with None n have "findall hex_pattern s = findall hex_pattern cs"
        "findall hex_pattern (map lower_hex s) = findall hex_pattern (map lower_hex cs)"
        by (simp_all add: findall_skip)
      with "1.IH" Cons show ?thesis by simp
    qed
  next
    case (Some a)
    then obtain gs t where m: "rmatch hex_pattern s = Some (gs, t)" by (cases a) auto
    note len = hex_pattern_consumes[OF m]
    have m': "rmatch hex_pattern (map lower_hex s) = Some (gs, map lower_hex t)"
      using m by (simp add: rmatch_hex_lower)
    have "findall hex_pattern (map lower_hex s)
            = take (length s - length t) (map lower_hex s) # findall hex_pattern (map lower_hex t)"
      using findall_match[OF m'] len by simp
    moreover have "findall hex_pattern s = take (length s - length t) s # findall hex_pattern t"
      by (rule findall_match[OF m len])
    moreover have "findall hex_pattern (map lower_hex t) = map (map lower_hex) (findall hex_pattern t)"
      using "1.IH" len by blast
    ultimately show ?thesis by (simp add: take_map)
  qed
qed

lemma val_b_lower: "val_b b acc (map lower_hex ds) = val_b b acc ds"
  unfolding val_b_def by (induction ds arbitrary: acc) (simp_all add: digit_of_lower)

lemma hex_values_lower: "hex_values (map lower_hex body) = hex_values body"
  by (simp add: hex_values_total findall_hex_lower comp_def drop_map val_b_lower)

section \<open>The call pass on a matched call\<close>



lemma strip_trimmed: "trimmed g (strip g)"
proof -
  let ?P = isspace
  let ?l = "takeWhile ?P g" and ?g1 = "dropWhile ?P g"
  let ?t = "rev (dropWhile ?P (rev ?g1))" and ?r = "rev (takeWhile ?P (rev ?g1))"
  have g1: "?g1 = ?t @ ?r"
    by (metis rev_append rev_rev_ident takeWhile_dropWhile_id)
  have g: "g = ?l @ ?t @ ?r" using g1 by (metis takeWhile_dropWhile_id)
  have l: "list_all ?P ?l" by (auto simp: list_all_iff dest: set_takeWhileD)
  have r: "list_all ?P ?r" by (auto simp: list_all_iff dest: set_takeWhileD)
  have t: "?t = [] \<or> (\<not> ?P (hd ?t) \<and> \<not> ?P (last ?t))"
  proof (cases "?t = []")
    case False
    then have ne: "dropWhile ?P (rev ?g1) \<noteq> []" by simp
    have "last ?t = hd (dropWhile ?P (rev ?g1))" using ne by (simp add: last_rev)
    then have la: "\<not> ?P (last ?t)" using hd_dropWhile[OF ne] by simp
    have "?g1 \<noteq> []" using ne by (cases "?g1 = []") simp_all
    then have "\<not> ?P (hd ?g1)" by (rule hd_dropWhile)
    moreover have "hd ?g1 = hd ?t" using g1 False by (metis hd_append2)
    ultimately show ?thesis using la by simp
  qed simp
  have "strip g = ?t" by (simp add: strip_def strip_by_def)
  with g l r t show ?thesis unfolding trimmed_def by metis
qed




section \<open>Running the call pass twice\<close>

lemma calls_rewritten_skip:
  "rmatch draw_pattern (c # cs) = None \<Longrightarrow>
   calls_rewritten (c # cs) = (\<not> starts_call (c # cs) \<and> calls_rewritten cs)"
  by (subst calls_rewritten.simps) simp

lemma calls_rewritten_match:
  "rmatch draw_pattern s = Some (gs, t) \<Longrightarrow> length t < length s \<Longrightarrow>
   calls_rewritten s = (list_all no_call_in gs \<and> calls_rewritten t)"
  by (subst calls_rewritten.simps) simp

lemma starts_call_iff:
  "starts_call t \<longleftrightarrow>
   (\<exists>r v. t = CHR ''/'' # CHR ''/'' # r \<and> dropWhile isspace r = ''display.drawBitmap'' @ v)"
proof
  assume "starts_call t"
  then obtain r where r: "t = CHR ''/'' # CHR ''/'' # r"
    "take 18 (dropWhile isspace r) = ''display.drawBitmap''"
    by (cases t rule: starts_call.cases) auto
  have "dropWhile isspace r = take 18 (dropWhile isspace r) @ drop 18 (dropWhile isspace r)"
    by simp
  with r show "\<exists>r v. t = CHR ''/'' # CHR ''/'' # r \<and> dropWhile isspace r = ''display.drawBitmap'' @ v"
    by metis
next
  assume "\<exists>r v. t = CHR ''/'' # CHR ''/'' # r \<and> dropWhile isspace r = ''display.drawBitmap'' @ v"
  then show "starts_call t" by auto
qed

lemma starts_call_append: "starts_call t \<Longrightarrow> starts_call (t @ u)"
proof -
  assume "starts_call t"
  then obtain r v where r: "t = CHR ''/'' # CHR ''/'' # r"
    "dropWhile isspace r = ''display.drawBitmap'' @ v" unfolding starts_call_iff by blast
  then have "dropWhile isspace r \<noteq> []" by simp
  then have "\<exists>x\<in>set r. \<not> isspace x" by (simp add: dropWhile_eq_Nil_conv)
  then have "dropWhile isspace (r @ u) = dropWhile isspace r @ u" by (auto simp: dropWhile_append)
  with r show ?thesis unfolding starts_call_iff by simp
qed

lemma match_starts_call:
  assumes "rmatch draw_pattern t = Some (gs, u)"
  shows "starts_call t"
proof -
  from draw_pattern_shape[OF assms] obtain a z where
    t: "t = ''//'' @ a @ ''display.drawBitmap'' @ z" and a1: "list_all isspace a"
    by (auto simp: list_all_iff)
  have "\<not> isspace (CHR ''d'')" by (simp add: isspace_def ord_def)
  then have "dropWhile isspace (a @ ''display.drawBitmap'' @ z) = ''display.drawBitmap'' @ z"
    using a1 by (simp add: dropWhile_append list_all_iff)
  with t show ?thesis unfolding starts_call_iff by simp
qed

lemma no_call_no_match: "no_call_in s \<Longrightarrow> no_match draw_pattern s"
proof (induction s)
  case Nil
  have "rmatch draw_pattern [] = None"
    using match_starts_call[of "[]"] by (cases "rmatch draw_pattern []") auto
  then show ?case by simp
next
  case (Cons c cs)
  have "rmatch draw_pattern (c # cs) = None"
    using match_starts_call[of "c # cs"] Cons.prems by (cases "rmatch draw_pattern (c # cs)") auto
  then show ?case using Cons by simp
qed

text \<open>A place that begins like a call and runs into a text \<open>v\<close> that cannot continue it
  begins like a call before \<open>v\<close> already.\<close>

lemma starts_call_before:
  assumes "starts_call (p @ v)" "p \<noteq> []" "v \<noteq> []" "hd v \<noteq> CHR ''/''" "\<not> isspace (hd v)"
    "take 18 v \<noteq> ''display.drawBitmap''"
    "\<And>n. 0 < n \<Longrightarrow> n < 18 \<Longrightarrow> take (18 - n) v \<noteq> drop n ''display.drawBitmap''"
  shows "starts_call p"
proof -
  let ?K = "''display.drawBitmap''"
  from assms(1) obtain r0 where r0: "p @ v = CHR ''/'' # CHR ''/'' # r0"
    and k: "take 18 (dropWhile isspace r0) = ?K"
    by (cases "p @ v" rule: starts_call.cases) auto
  obtain c0 p1 where p: "p = c0 # p1" using assms(2) by (cases p) auto
  have "p1 \<noteq> []"
  proof
    assume "p1 = []"
    with r0 p have "hd v = CHR ''/''" using assms(3) by (cases v) auto
    with assms(4) show False by simp
  qed
  then obtain c1 r where p1: "p1 = c1 # r" by (cases p1) auto
  with p r0 have c: "c0 = CHR ''/''" "c1 = CHR ''/''" and r0': "r0 = r @ v" by auto
  let ?q = "dropWhile isspace r"
  have d: "dropWhile isspace (r @ v) = ?q @ v"
  proof (cases "\<forall>x\<in>set r. isspace x")
    case True
    then have "dropWhile isspace (r @ v) = dropWhile isspace v" by (intro dropWhile_append2) auto
    also have "\<dots> = v" using assms(3,5) by (cases v) auto
    finally show ?thesis using True by simp
  next
    case False
    then show ?thesis by (auto simp: dropWhile_append)
  qed
  have kv: "take 18 (?q @ v) = ?K" using k r0' d by simp
  have "take 18 ?q = ?K"
  proof (cases "18 \<le> length ?q")
    case True
    with kv show ?thesis by simp
  next
    case False
    then have n: "length ?q < 18" by simp
    from kv have e: "?q @ take (18 - length ?q) v = ?K" using n by simp
    then have "take (18 - length ?q) v = drop (length ?q) ?K"
      by (metis append_eq_conv_conj)
    moreover have "?q \<noteq> []"
    proof
      assume q: "?q = []"
      from e have "take 18 v = ?K" unfolding q by simp
      with assms(6) show False by simp
    qed
    ultimately show ?thesis using assms(7)[of "length ?q"] n by auto
  qed
  with p p1 c show ?thesis by simp
qed

lemma template_blocks:
  assumes "0 < n" "n < 18"
  shows "take (18 - n) (''display.setDrawColor(1); display.drawXBMP('' @ z)
           \<noteq> drop n ''display.drawBitmap''"
proof -
  define T where "T = ''display.setDrawColor(1); display.drawXBMP(''"
  have "list_all (\<lambda>n. take (18 - n) ''display.setDrawColor(1); display.drawXBMP(''
                        \<noteq> drop n ''display.drawBitmap'') [1 ..< 18]"
    by code_simp
  moreover have "n \<in> set [1 ..< 18]" using assms by simp
  ultimately have "take (18 - n) T \<noteq> drop n ''display.drawBitmap''"
    unfolding list_all_iff T_def by blast
  moreover have "18 \<le> length T" by (simp add: T_def)
  then have "take (18 - n) (T @ z) = take (18 - n) T" by simp
  ultimately show ?thesis unfolding T_def by simp
qed

lemma starts_call_before_template:
  assumes "starts_call (p @ ''display.setDrawColor(1); display.drawXBMP('' @ z)" "p \<noteq> []"
  shows "starts_call p"
  using assms(1,2)
proof (rule starts_call_before)
  show "''display.setDrawColor(1); display.drawXBMP('' @ z \<noteq> []" by simp
  show "hd (''display.setDrawColor(1); display.drawXBMP('' @ z) \<noteq> CHR ''/''" by simp
  show "\<not> isspace (hd (''display.setDrawColor(1); display.drawXBMP('' @ z))"
    by (simp add: isspace_def ord_def)
  show "take 18 (''display.setDrawColor(1); display.drawXBMP('' @ z) \<noteq> ''display.drawBitmap''"
    by simp
  fix n :: nat assume "0 < n" "n < 18"
  then show "take (18 - n) (''display.setDrawColor(1); display.drawXBMP('' @ z)
               \<noteq> drop n ''display.drawBitmap''" by (rule template_blocks)
qed

lemma starts_call_before_stop:
  assumes "starts_call (p @ c # z)" "p \<noteq> []" "c = CHR '','' \<or> c = CHR '')''"
  shows "starts_call p"
  using assms(1,2)
proof (rule starts_call_before)
  show "c # z \<noteq> []" by simp
  show "hd (c # z) \<noteq> CHR ''/''" using assms(3) by auto
  show "\<not> isspace (hd (c # z))" using assms(3) by (auto simp: isspace_def ord_def)
  show "take 18 (c # z) \<noteq> ''display.drawBitmap''" using assms(3) by auto
  fix n :: nat assume n: "0 < n" "n < 18"
  have "c \<notin> set ''display.drawBitmap''" using assms(3) by auto
  moreover have "drop n ''display.drawBitmap'' \<noteq> []" using n by simp
  then have "hd (drop n ''display.drawBitmap'') \<in> set ''display.drawBitmap''"
    by (metis hd_in_set in_set_dropD)
  moreover have "hd (take (18 - n) (c # z)) = c" using n by (cases "18 - n") auto
  ultimately show "take (18 - n) (c # z) \<noteq> drop n ''display.drawBitmap''" by metis
qed

lemma call_pass_Nil: "call_pass [] = Inr []"
proof -
  have "rmatch draw_pattern [] = None"
    using match_starts_call[of "[]"] by (cases "rmatch draw_pattern []") auto
  then show ?thesis by (simp add: call_pass_def sub_Nil)
qed

lemma call_pass_skip:
  "rmatch draw_pattern (c # cs) = None \<Longrightarrow>
   call_pass (c # cs) = (case call_pass cs of Inl e \<Rightarrow> Inl e | Inr out \<Rightarrow> Inr (c # out))"
  by (simp add: call_pass_def sub_skip)

lemma call_pass_match:
  assumes "rmatch draw_pattern s = Some (gs, t)"
  shows "\<exists>x y bitmap w h out. gs = [x, y, bitmap, w, h] \<and> length t < length s
           \<and> call_pass t = Inr out
           \<and> call_pass s
               = Inr (call_text (strip x) (strip y) (strip w) (strip h) (strip bitmap) @ out)"
proof -
  note len = draw_pattern_consumes[OF assms]
  from draw_pattern_shape[OF assms] obtain x y bitmap w h where gs: "gs = [x, y, bitmap, w, h]"
    by blast
  obtain out where out: "call_pass t = Inr out" using call_pass_total by blast
  have r: "draw_replacement gs
          = Inr (call_text (strip x) (strip y) (strip w) (strip h) (strip bitmap))"
    unfolding gs call_text_def by (rule draw_replacement_eq)
  from sub_match[OF assms len, of draw_replacement
      "call_text (strip x) (strip y) (strip w) (strip h) (strip bitmap)"] r out
  have "call_pass s
          = Inr (call_text (strip x) (strip y) (strip w) (strip h) (strip bitmap) @ out)"
    unfolding call_pass_def by simp
  with gs len out show ?thesis by blast
qed

lemma starts_call_before_text:
  assumes "starts_call (p @ call_text x y w h bitmap @ z)" "p \<noteq> []"
  shows "starts_call p"
proof -
  have "call_text x y w h bitmap @ z
          = ''display.setDrawColor(1); display.drawXBMP(''
              @ (x @ '', '' @ y @ '', '' @ w @ '', '' @ h @ '', '' @ bitmap @ '');'' @ z)"
    unfolding call_text_def by (simp only: append_assoc)
  with assms show ?thesis using starts_call_before_template by metis
qed

text \<open>A place of the output that begins like a call, reached from text the scan has
  copied, began like a call in the input.\<close>

lemma starts_call_output:
  "call_pass cs = Inr out \<Longrightarrow> p \<noteq> [] \<Longrightarrow> starts_call (p @ out) \<Longrightarrow> starts_call (p @ cs)"
proof (induction cs arbitrary: p out rule: length_induct)
  case (1 cs)
  show ?case
  proof (cases "rmatch draw_pattern cs")
    case None
    show ?thesis
    proof (cases cs)
      case Nil
      with "1.prems" show ?thesis by (simp add: call_pass_Nil)
    next
      case (Cons c cs')
      from "1.prems"(1) None Cons obtain o' where o': "call_pass cs' = Inr o'" "out = c # o'"
        by (auto simp: call_pass_skip split: sum.splits)
      have "starts_call ((p @ [c]) @ o')" using "1.prems"(3) o'(2) by simp
      moreover have "length cs' < length cs" using Cons by simp
      ultimately have "starts_call ((p @ [c]) @ cs')" using "1.IH" o'(1) by blast
      then show ?thesis using Cons by simp
    qed
  next
    case (Some a)
    then obtain gs t where m: "rmatch draw_pattern cs = Some (gs, t)" by (cases a) auto
    from call_pass_match[OF m] "1.prems"(1) obtain x y w h bitmap z where
      "out = call_text x y w h bitmap @ z" by auto
    with "1.prems"(2,3) have "starts_call p" using starts_call_before_text by blast
    then show ?thesis by (rule starts_call_append)
  qed
qed

lemma starts_call_slash: "starts_call (c # t) \<Longrightarrow> c = CHR ''/''"
  by (cases t) auto

lemma no_call_cons_plain: "c \<noteq> CHR ''/'' \<Longrightarrow> no_call_in (c # B) = no_call_in B"
  using starts_call_slash by auto

lemma no_call_plain: "\<forall>c\<in>set a. c \<noteq> CHR ''/'' \<Longrightarrow> no_call_in (a @ B) = no_call_in B"
  by (induction a) (simp_all add: no_call_cons_plain del: no_call_in.simps(2))

lemma no_call_suffix: "no_call_in (l @ u) \<Longrightarrow> no_call_in u"
  by (induction l) auto

lemma no_call_prefix: "no_call_in (t @ r) \<Longrightarrow> no_call_in t"
proof (induction t)
  case Nil
  then show ?case by simp
next
  case (Cons a t)
  then have "\<not> starts_call ((a # t) @ r)" "no_call_in t" by auto
  then show ?case using starts_call_append[of "a # t" r] by auto
qed

lemma no_call_strip: "no_call_in g \<Longrightarrow> no_call_in (strip g)"
proof -
  assume g: "no_call_in g"
  from strip_trimmed[of g] obtain l r where "g = l @ strip g @ r" unfolding trimmed_def by blast
  with g have "no_call_in (l @ strip g @ r)" by simp
  then show ?thesis using no_call_suffix no_call_prefix by blast
qed

lemma no_call_fragment:
  "no_call_in g \<Longrightarrow> c = CHR '','' \<or> c = CHR '')'' \<Longrightarrow>
   no_call_in (g @ c # B) = no_call_in (c # B)"
proof (induction g)
  case Nil
  then show ?case by simp
next
  case (Cons a g)
  then have ih: "no_call_in (g @ c # B) = no_call_in (c # B)" and n: "\<not> starts_call (a # g)"
    by auto
  have "\<not> starts_call ((a # g) @ c # B)"
    using starts_call_before_stop[of "a # g" c B] n Cons.prems(2) by blast
  with ih show ?case by simp
qed

lemma no_call_text:
  assumes "no_call_in x" "no_call_in y" "no_call_in w" "no_call_in h" "no_call_in bitmap"
    "no_call_in B"
  shows "no_call_in (call_text x y w h bitmap @ B)"
proof -
  have "no_call_in (x @ '', '' @ y @ '', '' @ w @ '', '' @ h @ '', '' @ bitmap @ '');'' @ B)"
    using assms by (simp del: no_call_in.simps starts_call.simps
        add: no_call_cons_plain no_call_fragment)
  then have "no_call_in (''display.setDrawColor(1); display.drawXBMP(''
               @ (x @ '', '' @ y @ '', '' @ w @ '', '' @ h @ '', '' @ bitmap @ '');'' @ B))"
    by (subst no_call_plain) simp_all
  then show ?thesis unfolding call_text_def by (simp only: append_assoc)
qed

lemma no_call_output:
  "calls_rewritten s \<Longrightarrow> call_pass s = Inr out \<Longrightarrow> no_call_in out"
proof (induction s arbitrary: out rule: length_induct)
  case (1 s)
  show ?case
  proof (cases "rmatch draw_pattern s")
    case None
    show ?thesis
    proof (cases s)
      case Nil
      with "1.prems" show ?thesis by (simp add: call_pass_Nil)
    next
      case (Cons c cs)
      from "1.prems"(2) None Cons obtain o' where o': "call_pass cs = Inr o'" "out = c # o'"
        by (auto simp: call_pass_skip split: sum.splits)
      from "1.prems"(1) None Cons have c: "\<not> starts_call (c # cs)" and cs: "calls_rewritten cs"
        by (simp_all add: calls_rewritten_skip)
      have "no_call_in o'" using "1.IH" Cons cs o'(1) by auto
      moreover have "\<not> starts_call (c # o')"
        using starts_call_output[OF o'(1), of "[c]"] c by auto
      ultimately show ?thesis using o'(2) by simp
    qed
  next
    case (Some a)
    then obtain gs t where m: "rmatch draw_pattern s = Some (gs, t)" by (cases a) auto
    from call_pass_match[OF m] obtain x y bitmap w h o' where
      gs: "gs = [x, y, bitmap, w, h]" and len: "length t < length s"
      and o': "call_pass t = Inr o'"
      and c: "call_pass s
                = Inr (call_text (strip x) (strip y) (strip w) (strip h) (strip bitmap) @ o')"
      by blast
    from "1.prems"(1) m len gs have
      fr: "no_call_in x" "no_call_in y" "no_call_in bitmap" "no_call_in w" "no_call_in h"
      and t: "calls_rewritten t"
      by (simp_all add: calls_rewritten_match)
    have n: "no_call_in o'" using "1.IH" len t o' by blast
    have "no_call_in (call_text (strip x) (strip y) (strip w) (strip h) (strip bitmap) @ o')"
      using fr n by (intro no_call_text no_call_strip)
    with c "1.prems"(2) show ?thesis by simp
  qed
qed

text \<open>
  Claim C7, as amended. When every place of a buffer that begins like a commented-out
  call (\<^verbatim>\<open>//\<close>, optional white space, \<^verbatim>\<open>display.drawBitmap\<close>) is the start of a call the
  call pass rewrites, and none lies inside a captured fragment, then no place of the
  output of the call pass begins like a commented-out call, and the call pass leaves
  that output unchanged.
\<close>

theorem call_pass_idempotent:
  assumes "calls_rewritten s"
  shows "\<exists>out. call_pass s = Inr out \<and> no_call_in out \<and> call_pass out = Inr out"
proof -
  obtain out where out: "call_pass s = Inr out" using call_pass_total by blast
  from no_call_output[OF assms out] have n: "no_call_in out" .
  have "no_match draw_pattern out" using n by (rule no_call_no_match)
  then have again: "call_pass out = Inr out" unfolding call_pass_def by (rule sub_no_match)
  show ?thesis
  proof (intro exI conjI)
    show "call_pass s = Inr out" by (rule out)
    show "no_call_in out" by (rule n)
    show "call_pass out = Inr out" by (rule again)
  qed
qed

theorem call_pass_idempotent_witness:
  "call_pass ''a = b / 2; // note //display.drawBitmap(0, 0, icon, w/2, 8, 1);''
     = Inr ''a = b / 2; // note display.setDrawColor(1); display.drawXBMP(0, 0, w/2, 8, icon);''
   \<and> call_pass ''a = b / 2; // note display.setDrawColor(1); display.drawXBMP(0, 0, w/2, 8, icon);''
     = Inr ''a = b / 2; // note display.setDrawColor(1); display.drawXBMP(0, 0, w/2, 8, icon);''"
proof -
  have h: "calls_rewritten ''a = b / 2; // note //display.drawBitmap(0, 0, icon, w/2, 8, 1);''"
    by code_simp
  have c: "call_pass ''a = b / 2; // note //display.drawBitmap(0, 0, icon, w/2, 8, 1);''
     = Inr ''a = b / 2; // note display.setDrawColor(1); display.drawXBMP(0, 0, w/2, 8, icon);''"
    by code_simp
  from call_pass_idempotent[OF h] obtain out where
    o: "call_pass ''a = b / 2; // note //display.drawBitmap(0, 0, icon, w/2, 8, 1);'' = Inr out"
    and a: "call_pass out = Inr out" by blast
  from o c have "out = ''a = b / 2; // note display.setDrawColor(1); display.drawXBMP(0, 0, w/2, 8, icon);''"
    by simp
  with a c show ?thesis by simp
qed

section \<open>The case of the hexadecimal digits: the claim\<close>

lemma hex_token_values:
  assumes "ds \<noteq> []" "list_all ishex ds" "t = [] \<or> \<not> ishex (hd t)"
  shows "\<exists>vs. hex_values t = Inr vs
            \<and> hex_values (''0x'' @ ds @ t) = Inr (int (val_b 16 0 ds) # vs)"
proof -
  have "findall hex_pattern (CHR ''0'' # CHR ''x'' # ds @ t)
               = (CHR ''0'' # CHR ''x'' # ds) # findall hex_pattern t"
    using assms by (intro findall_hex_token) auto
  then show ?thesis by (simp add: hex_values_total)
qed

text \<open>
  Claim C10. A byte token is accepted whatever the case of its digits: \<^verbatim>\<open>0xAB\<close> and
  \<^verbatim>\<open>0xab\<close> are both read as 171, a token with the digits \<^verbatim>\<open>A\<close> to \<^verbatim>\<open>F\<close> in either
  case contributes the value of its lowercase spelling, and a body and its lowercase
  spelling give the same values. The replacement writes one literal for each value read,
  the literal of the bit-reversed value, as \<^verbatim>\<open>0x\<close> followed by digits of \<^verbatim>\<open>[0-9a-f]\<close>
  that denote it: \<^verbatim>\<open>{0xAB}\<close> comes out as \<^verbatim>\<open>{0xd5}\<close>.
\<close>

theorem hex_case_normalised:
  "hex_values ''0xAB'' = Inr [171] \<and> hex_values ''0xab'' = Inr [171]
   \<and> array_pass ''const unsigned char icon[] PROGMEM = {0xAB};''
       = Inr ''const unsigned char icon[] PROGMEM = {0xd5};''
   \<and> hex_values (map lower_hex body) = hex_values body
   \<and> (\<forall>ds t. ds \<noteq> [] \<and> list_all ishex ds \<and> (t = [] \<or> \<not> ishex (hd t)) \<longrightarrow>
         (\<exists>vs. hex_values t = Inr vs
              \<and> hex_values (''0x'' @ ds @ t) = Inr (int (val_b 16 0 (map lower_hex ds)) # vs)
              \<and> hex_values (''0x'' @ map lower_hex ds @ t)
                  = Inr (int (val_b 16 0 (map lower_hex ds)) # vs)))
   \<and> (\<exists>values nv.
         hex_values body = Inr values
         \<and> map_result reverse_bits values = Inr nv
         \<and> length nv = length values
         \<and> replacement [name, body]
             = Inr (''const unsigned char '' @ name @ ''[] PROGMEM = {''
                      @ spec_layout 0 (map hex_literal nv) @ ''};'')
         \<and> (\<forall>v\<in>set nv. \<exists>ds. hex_literal v = ''0x'' @ ds \<and> ds \<noteq> []
                                \<and> list_all islowhex ds \<and> int (val_b 16 0 ds) = v))"
proof (intro conjI allI impI)
  show "hex_values ''0xAB'' = Inr [171]" by code_simp
  show "hex_values ''0xab'' = Inr [171]" by code_simp
  show "array_pass ''const unsigned char icon[] PROGMEM = {0xAB};''
       = Inr ''const unsigned char icon[] PROGMEM = {0xd5};''" by code_simp
  show "hex_values (map lower_hex body) = hex_values body" by (rule hex_values_lower)
next
  fix ds t assume a: "ds \<noteq> [] \<and> list_all ishex ds \<and> (t = [] \<or> \<not> ishex (hd t))"
  then have up: "\<exists>vs. hex_values t = Inr vs
            \<and> hex_values (''0x'' @ ds @ t) = Inr (int (val_b 16 0 ds) # vs)"
    by (intro hex_token_values) auto
  have "map lower_hex ds \<noteq> []" "list_all ishex (map lower_hex ds)"
    using a by (auto simp: list_all_iff ishex_lower)
  then have lo: "\<exists>vs. hex_values t = Inr vs
            \<and> hex_values (''0x'' @ map lower_hex ds @ t)
                = Inr (int (val_b 16 0 (map lower_hex ds)) # vs)"
    using a by (intro hex_token_values) auto
  from up lo show "\<exists>vs. hex_values t = Inr vs
              \<and> hex_values (''0x'' @ ds @ t) = Inr (int (val_b 16 0 (map lower_hex ds)) # vs)
              \<and> hex_values (''0x'' @ map lower_hex ds @ t)
                  = Inr (int (val_b 16 0 (map lower_hex ds)) # vs)"
    by (auto simp: val_b_lower)
next
  obtain vals where vs: "hex_values body = Inr vals" by (simp add: hex_values_total)
  from reverse_all_nonneg[OF hex_values_nonneg[OF vs]] obtain nv where
    nv: "map_result reverse_bits vals = Inr nv" "length nv = length vals"
    "\<forall>v\<in>set nv. 0 \<le> v" by blast
  have r: "replacement [name, body]
             = Inr (''const unsigned char '' @ name @ ''[] PROGMEM = {''
                      @ spec_layout 0 (map hex_literal nv) @ ''};'')"
    using replacement_layout[OF vs nv(1,3), of name] by (simp add: decl_text_def)
  have l: "\<forall>v\<in>set nv. \<exists>ds. hex_literal v = ''0x'' @ ds \<and> ds \<noteq> []
                                \<and> list_all islowhex ds \<and> int (val_b 16 0 ds) = v"
  proof
    fix v assume "v \<in> set nv"
    with nv(3) have "0 \<le> v" by simp
    from hex_literal_shape[OF this] \<open>0 \<le> v\<close>
    show "\<exists>ds. hex_literal v = ''0x'' @ ds \<and> ds \<noteq> [] \<and> list_all islowhex ds
               \<and> int (val_b 16 0 ds) = v" by auto
  qed
  show "\<exists>values nv.
         hex_values body = Inr values
         \<and> map_result reverse_bits values = Inr nv
         \<and> length nv = length values
         \<and> replacement [name, body]
             = Inr (''const unsigned char '' @ name @ ''[] PROGMEM = {''
                      @ spec_layout 0 (map hex_literal nv) @ ''};'')
         \<and> (\<forall>v\<in>set nv. \<exists>ds. hex_literal v = ''0x'' @ ds \<and> ds \<noteq> []
                                \<and> list_all islowhex ds \<and> int (val_b 16 0 ds) = v)"
    using vs nv(1,2) r l by (intro exI conjI)
qed

theorem hex_case_normalised_witness:
  "hex_values ''0xAB, 0x0F'' = Inr [171, 15]
   \<and> hex_values ''0xab, 0x0f'' = Inr [171, 15]
   \<and> replacement [''icon'', ''0xAB, 0x0F'']
       = Inr ''const unsigned char icon[] PROGMEM = {0xd5, 0xf0};''"
proof -
  have u: "hex_values ''0xAB, 0x0F'' = Inr [171, 15]" by code_simp
  have l: "map lower_hex ''0xAB, 0x0F'' = ''0xab, 0x0f''" by code_simp
  note inst = hex_case_normalised[of "''0xAB, 0x0F''" "''icon''"]
  from inst have "hex_values (map lower_hex ''0xAB, 0x0F'') = hex_values ''0xAB, 0x0F''"
    by (elim conjE)
  then have lo: "hex_values ''0xab, 0x0f'' = Inr [171, 15]" unfolding l u .
  from inst obtain vals nv where
    v: "hex_values ''0xAB, 0x0F'' = Inr vals"
    and n: "map_result reverse_bits vals = Inr nv"
    and r: "replacement [''icon'', ''0xAB, 0x0F'']
             = Inr (''const unsigned char '' @ ''icon'' @ ''[] PROGMEM = {''
                      @ spec_layout 0 (map hex_literal nv) @ ''};'')"
    by (elim conjE exE)
  from v u have "vals = [171, 15]" by simp
  moreover have "map_result reverse_bits [171, 15] = Inr [213, 240]" by code_simp
  ultimately have nv: "nv = [213, 240]" using n by simp
  have "''const unsigned char '' @ ''icon'' @ ''[] PROGMEM = {''
          @ spec_layout 0 (map hex_literal [213, 240]) @ ''};''
        = ''const unsigned char icon[] PROGMEM = {0xd5, 0xf0};''" by code_simp
  with r nv have re: "replacement [''icon'', ''0xAB, 0x0F'']
       = Inr ''const unsigned char icon[] PROGMEM = {0xd5, 0xf0};''" by simp
  from u lo re show ?thesis by (intro conjI)
qed

end
